theory Spec2Isabelle
  imports Main
begin

section \<open>Values of the projection\<close>

text \<open>
  A projection item is an object of class CollectionItem or of its subclass GroupItem
  (a group header); the number is the object's identity, so equality of items is
  reference equality. A slot of a JavaScript array holds an item or \<open>undefined\<close>.
\<close>

datatype item = CollectionItem nat | GroupItem nat

fun isGroupItem :: "item option \<Rightarrow> bool" where
  "isGroupItem (Some (GroupItem _)) = True"
| "isGroupItem _ = False"

text \<open>
  A value that stands for the current item, or that a caller passes as one: an item,
  \<open>undefined\<close> or \<open>null\<close>. The comparison \<open>!==\<close> tells the three apart, so
  equality of these values is \<open>===\<close>.
\<close>

datatype jsref = Undefined | Null | Ref item

text \<open>Errors thrown by the code: \<open>new Error(message)\<close> and the runtime's TypeError.\<close>

datatype error = Error string | TypeError

definition MESSAGE_READ_ONLY :: string where
  "MESSAGE_READ_ONLY =
     ''The Display is read only. You should modify the source collection instead.''"

text \<open>
  The actions of IBind, the events a Collection publishes, and the calls it makes to the
  notification interface of its base class (\<open>_notifyLater\<close>, \<open>_notify\<close>,
  \<open>_removeFromQueue\<close>). The base class is not part of the sources, so a run of the
  code is described by the calls it makes, in order. A session is the snapshot taken by
  \<open>_startUpdateSession\<close>.
\<close>

datatype action = ACTION_ADD | ACTION_REMOVE | ACTION_REPLACE | ACTION_MOVE | ACTION_RESET
  | ACTION_CHANGE

datatype event =
    OnBeforeCollectionChange
  | OnCollectionChange action "item option list" int "item option list" int
  | OnAfterCollectionChange
  | OnCurrentChange jsref jsref int int

datatype call = NotifyLater event | Notify event | RemoveFromQueue string

type_synonym session = "item list"

text \<open>
  A user handler (filter, sort or group function) is a function object, identified by
  its reference; a functor additionally carries the list of properties it depends on.
  A call argument is a function, an array or anything else.
\<close>

datatype handler = Handler nat "string list option"

datatype arg = Func handler | ArrayOf "arg list" | NonFunction

text \<open>
  Modelled from the spec: the strategy composer (itemsStrategy/Composer and the three
  strategies are not part of the sources). Each strategy memoises its materialised
  items; \<open>invalidate()\<close> drops the memoised state so that the next read recomputes.
\<close>

record composer =
  direct_items :: "item list option"
  user_items :: "item list option"
  group_items :: "item list option"

definition invalidate_group :: "composer \<Rightarrow> composer" where
  "invalidate_group c = c\<lparr>group_items := None\<rparr>"

text \<open>
  The contents of an item: a Model, which answers \<open>getId()\<close>, or a plain object read
  through \<open>object.getPropertyValue\<close>. Both answers are taken after the conversion
  \<open>String(uid)\<close>.
\<close>

datatype contents = Model string | Plain "string \<Rightarrow> string"

text \<open>
  The state of a Collection. The arrays \<open>_$filter\<close> and \<open>_$sort\<close> are objects
  of the store \<open>arrays\<close>, held by address, because the code both replaces them and
  mutates them in place, and hands out copies. \<open>items\<close> is what \<open>_getItems()\<close>
  returns; \<open>selected\<close> and \<open>item_contents\<close> are the items' own fields.
  \<open>eventRaising\<close> and \<open>needNotify\<close> are the answers of \<open>isEventRaising()\<close>
  and \<open>_isNeedNotifyCollectionChange()\<close>. \<open>position\<close> and \<open>current\<close> are
  the state of the cursor enumerator. \<open>source\<close> lists the items of the source
  collection (opaque values, told apart by a number) in the order of its enumerator, and
  \<open>sourceIsList\<close> says whether the source implements IList.
\<close>

record collection =
  arrays :: "handler list list"
  filter_ref :: nat
  sort_ref :: nat
  group :: "handler option"
  idProperty :: string
  importantItemProperties :: "string list"
  composer_of :: "composer option"
  items :: "item list"
  selected :: "item \<Rightarrow> bool"
  item_contents :: "item \<Rightarrow> contents"
  itemToUid :: "item \<rightharpoonup> string"
  itemsUid :: "string list"
  filterMap :: "bool option list"
  sortMap :: "nat list"
  eventRaising :: bool
  needNotify :: bool
  position :: int
  current :: jsref
  source :: "nat list"
  sourceIsList :: bool

definition isGrouped :: "collection \<Rightarrow> bool" where
  "isGrouped st \<longleftrightarrow> group st \<noteq> None"

text \<open>
  States used in the examples: three items of a source list, none hidden, in source
  order, nothing selected, no current item; and the same with a group function set.
\<close>

definition example :: collection where
  "example = \<lparr>arrays = [[Handler 100 None], [Handler 200 (Some [''title''])]],
     filter_ref = 0, sort_ref = 1,
     group = None, idProperty = ''id'',
     importantItemProperties = [''id'', ''title''], composer_of = None,
     items = [CollectionItem 11, CollectionItem 12, CollectionItem 13],
     selected = (\<lambda>_. False), item_contents = (\<lambda>_. Model ''7''), itemToUid = Map.empty,
     itemsUid = [''7'', ''7-1''], filterMap = [Some True, Some True, Some True],
     sortMap = [0, 1, 2], eventRaising = True, needNotify = True,
     position = - 1, current = Undefined, source = [11, 12, 13], sourceIsList = True\<rparr>"

definition grouped_example :: collection where
  "grouped_example = example\<lparr>group := Some (Handler 300 None)\<rparr>"

section \<open>The mutation guard\<close>

text \<open>
  The nine mutating methods of IList consist of one statement,
  \<open>throw new Error(MESSAGE_READ_ONLY)\<close>. They declare no parameter; whatever
  a caller passes is ignored. The outcome of a call is the thrown error or the returned
  value, together with the state after the call.
\<close>

definition assign :: "collection \<Rightarrow> arg list \<Rightarrow> (error + unit) \<times> collection" where
  "assign st args = (Inl (Error MESSAGE_READ_ONLY), st)"

definition append_items :: "collection \<Rightarrow> arg list \<Rightarrow> (error + unit) \<times> collection" where
  "append_items st args = (Inl (Error MESSAGE_READ_ONLY), st)"

definition prepend :: "collection \<Rightarrow> arg list \<Rightarrow> (error + unit) \<times> collection" where
  "prepend st args = (Inl (Error MESSAGE_READ_ONLY), st)"

definition clear :: "collection \<Rightarrow> arg list \<Rightarrow> (error + unit) \<times> collection" where
  "clear st args = (Inl (Error MESSAGE_READ_ONLY), st)"

definition add :: "collection \<Rightarrow> arg list \<Rightarrow> (error + unit) \<times> collection" where
  "add st args = (Inl (Error MESSAGE_READ_ONLY), st)"

definition remove_item :: "collection \<Rightarrow> arg list \<Rightarrow> (error + bool) \<times> collection" where
  "remove_item st args = (Inl (Error MESSAGE_READ_ONLY), st)"

definition removeAt :: "collection \<Rightarrow> arg list \<Rightarrow> (error + item) \<times> collection" where
  "removeAt st args = (Inl (Error MESSAGE_READ_ONLY), st)"

definition replace_item :: "collection \<Rightarrow> arg list \<Rightarrow> (error + item) \<times> collection" where
  "replace_item st args = (Inl (Error MESSAGE_READ_ONLY), st)"

definition move :: "collection \<Rightarrow> arg list \<Rightarrow> (error + unit) \<times> collection" where
  "move st args = (Inl (Error MESSAGE_READ_ONLY), st)"

section \<open>Re-grouping\<close>

text \<open>
  \<open>_reGroup(start?, count?)\<close>: returns at once when there is no composer, otherwise
  takes the group strategy of the composer and invalidates it. Neither parameter is read.
\<close>

definition reGroup :: "collection \<Rightarrow> int option \<Rightarrow> int option \<Rightarrow> collection" where
  "reGroup st start count =
     (case composer_of st of
        None \<Rightarrow> st
      | Some c \<Rightarrow> st\<lparr>composer_of := Some (invalidate_group c)\<rparr>)"

section \<open>Unique ids of items\<close>

text \<open>
  \<open>String(n)\<close> of a counter is its decimal notation (the counter is an exact
  integer: it stays far below 2^53). \<open>nat_of_string\<close> reads the notation back; it
  serves to show that different counters give different suffixes, which is why the
  search loop of \<open>_searchItemUid\<close> ends.
\<close>

definition digits :: string where
  "digits = ''0123456789''"

function string_of_nat :: "nat \<Rightarrow> string" where
  "string_of_nat n =
     (if n < 10 then [digits ! n] else string_of_nat (n div 10) @ [digits ! (n mod 10)])"
  by pat_completeness auto
termination
  by (relation "measure id") auto

declare string_of_nat.simps [simp del]

definition digit_val :: "char \<Rightarrow> nat" where
  "digit_val c = length (takeWhile (\<lambda>d. d \<noteq> c) digits)"

definition nat_of_string :: "string \<Rightarrow> nat" where
  "nat_of_string s = foldl (\<lambda>acc c. 10 * acc + digit_val c) 0 s"

lemma digit_val_digit: "d < 10 \<Longrightarrow> digit_val (digits ! d) = d"
proof -
  assume "d < 10"
  then have "d \<in> {0, 1, 2, 3, 4, 5, 6, 7, 8, 9}" by auto
  then show ?thesis
    by (auto simp: digit_val_def digits_def)
qed

lemma nat_of_string_of_nat: "nat_of_string (string_of_nat n) = n"
proof (induction n rule: string_of_nat.induct)
  case (1 n)
  show ?case
  proof (cases "n < 10")
    case True
    then show ?thesis
      by (subst string_of_nat.simps) (simp add: nat_of_string_def digit_val_digit)
  next
    case False
    with 1 have "nat_of_string (string_of_nat (n div 10)) = n div 10" by simp
    with False show ?thesis
      by (subst string_of_nat.simps) (simp add: nat_of_string_def digit_val_digit)
  qed
qed

lemma inj_string_of_nat: "inj string_of_nat"
  by (rule inj_on_inverseI [where g = nat_of_string]) (rule nat_of_string_of_nat)

text \<open>
  \<open>_searchItemUid(item, baseId)\<close>: while the uid set has the candidate, the next
  candidate is \<open>baseId.concat('-', String(++count))\<close>; the candidate found is added to
  the set. The set is a JavaScript Set of strings, kept as the list of its members in
  insertion order.
\<close>

lemma finite_suffix_candidates:
  "finite {k. c < k \<and> b @ ''-'' @ string_of_nat k \<in> set S}"
proof -
  have "inj (\<lambda>k. b @ ''-'' @ string_of_nat k)"
    using inj_string_of_nat by (auto simp: inj_def)
  then have "finite ((\<lambda>k. b @ ''-'' @ string_of_nat k) -` set S)"
    by (intro finite_vimageI) simp_all
  then show ?thesis
    by (rule rev_finite_subset) auto
qed

lemma suffix_candidates_step:
  "card {k. c < k \<and> b @ ''-'' @ string_of_nat k \<in> set S} =
   card {k. Suc c < k \<and> b @ ''-'' @ string_of_nat k \<in> set S} +
   (if b @ ''-'' @ string_of_nat (Suc c) \<in> set S then 1 else 0)"
proof -
  let ?P = "\<lambda>k. b @ ''-'' @ string_of_nat k \<in> set S"
  have fin: "finite {k. Suc c < k \<and> ?P k}" by (rule finite_suffix_candidates)
  show ?thesis
  proof (cases "?P (Suc c)")
    case True
    then have "{k. c < k \<and> ?P k} = insert (Suc c) {k. Suc c < k \<and> ?P k}" by auto
    with fin True show ?thesis by simp
  next
    case False
    then have "{k. c < k \<and> ?P k} = {k. Suc c < k \<and> ?P k}"
      by (auto intro!: Suc_lessI)
    with False show ?thesis by simp
  qed
qed

function searchItemUid_loop :: "string \<Rightarrow> string list \<Rightarrow> nat \<Rightarrow> string \<Rightarrow> string" where
  "searchItemUid_loop baseId uids count uid =
     (if uid \<in> set uids
      then searchItemUid_loop baseId uids (Suc count) (baseId @ ''-'' @ string_of_nat (Suc count))
      else uid)"
  by pat_completeness auto
termination
proof (relation "measure (\<lambda>(b, S, c, u).
         card {k. c < k \<and> b @ ''-'' @ string_of_nat k \<in> set S} + (if u \<in> set S then 1 else 0))",
       goal_cases)
  case 1
  show ?case by simp
next
  case (2 baseId uids count uid)
  then show ?case
    using suffix_candidates_step [of count baseId uids] by simp
qed

declare searchItemUid_loop.simps [simp del]

definition searchItemUid :: "collection \<Rightarrow> string \<Rightarrow> string \<times> collection" where
  "searchItemUid st baseId =
     (let uid = searchItemUid_loop baseId (itemsUid st) 0 baseId
      in (uid, st\<lparr>itemsUid := (if uid \<in> set (itemsUid st) then itemsUid st
                                 else itemsUid st @ [uid])\<rparr>))"

text \<open>
  \<open>_exctractItemId\<close>: the id of a Model, else the value of the id property when
  \<open>idProperty\<close> is not the empty string, else an error (whose message has the
  property's name in double quotes, dropped here). \<open>getItemUid\<close> answers from the
  memo table when it has the item, and otherwise extracts, searches and memoises.
\<close>

definition exctractItemId :: "collection \<Rightarrow> item \<Rightarrow> error + string" where
  "exctractItemId st it =
     (case item_contents st it of
        Model uid \<Rightarrow> Inr uid
      | Plain props \<Rightarrow>
          if idProperty st \<noteq> [] then Inr (props (idProperty st))
          else Inl (Error ''Option idProperty must be defined to extract item unique id.''))"

definition getItemUid :: "collection \<Rightarrow> item \<Rightarrow> (error + string) \<times> collection" where
  "getItemUid st it =
     (case itemToUid st it of
        Some uid \<Rightarrow> (Inr uid, st)
      | None \<Rightarrow>
          (case exctractItemId st it of
             Inl e \<Rightarrow> (Inl e, st)
           | Inr baseId \<Rightarrow>
               (let (uid, st') = searchItemUid st baseId
                in (Inr uid, st'\<lparr>itemToUid := (itemToUid st')(it \<mapsto> uid)\<rparr>))))"

text \<open>
  The candidates of the search, by counter, and the invariant of the two tables: every
  memoised uid is in the uid set, and no two items share a memoised uid.
\<close>

definition suffixed :: "string \<Rightarrow> nat \<Rightarrow> string" where
  "suffixed baseId k = (if k = 0 then baseId else baseId @ ''-'' @ string_of_nat k)"

definition uid_inv :: "collection \<Rightarrow> bool" where
  "uid_inv st \<longleftrightarrow>
     ran (itemToUid st) \<subseteq> set (itemsUid st) \<and>
     (\<forall>i j u. itemToUid st i = Some u \<and> itemToUid st j = Some u \<longrightarrow> i = j)"

lemma searchItemUid_loop_first_free:
  "uid = suffixed baseId count \<Longrightarrow>
   \<exists>k\<ge>count. searchItemUid_loop baseId uids count uid = suffixed baseId k \<and>
     suffixed baseId k \<notin> set uids \<and> (\<forall>j. count \<le> j \<and> j < k \<longrightarrow> suffixed baseId j \<in> set uids)"
proof (induction baseId uids count uid rule: searchItemUid_loop.induct)
  case (1 baseId uids count uid)
  show ?case
  proof (cases "uid \<in> set uids")
    case False
    with "1.prems" show ?thesis
      by (subst searchItemUid_loop.simps) (auto intro!: exI [of _ count])
  next
    case True
    have "baseId @ ''-'' @ string_of_nat (Suc count) = suffixed baseId (Suc count)"
      by (simp add: suffixed_def)
    from "1.IH" [OF True this] obtain k where k: "Suc count \<le> k"
      "searchItemUid_loop baseId uids (Suc count) (baseId @ ''-'' @ string_of_nat (Suc count))
         = suffixed baseId k"
      "suffixed baseId k \<notin> set uids"
      "\<forall>j. Suc count \<le> j \<and> j < k \<longrightarrow> suffixed baseId j \<in> set uids"
      by blast
    have "\<forall>j. count \<le> j \<and> j < k \<longrightarrow> suffixed baseId j \<in> set uids"
    proof (intro allI impI)
      fix j assume "count \<le> j \<and> j < k"
      then consider "j = count" | "Suc count \<le> j \<and> j < k" by linarith
      then show "suffixed baseId j \<in> set uids"
        using True "1.prems" k(4) by cases auto
    qed
    with k True show ?thesis
      by (subst searchItemUid_loop.simps) (auto intro!: exI [of _ k])
  qed
qed

lemma uid_inv_initial: "itemToUid st = Map.empty \<Longrightarrow> uid_inv st"
  by (simp add: uid_inv_def)

section \<open>Notification of collection changes\<close>

text \<open>
  \<open>_notifyCollectionChange\<close>: nothing when no notification is needed; one
  \<open>_notifyLater\<close> call when there is no session, the action is reset or no group
  function is set; otherwise the loop over the items (the old items for a remove, the new
  ones otherwise) that calls the inner function \<open>notify(start, finish)\<close> at every
  group header and at the last item. \<open>slice xs start finish\<close> is
  \<open>xs.slice(start, finish)\<close> for \<open>0 \<le> start \<le> finish\<close>; \<open>notify_pack\<close> is
  the inner function \<open>notify\<close>; \<open>split_by_groups\<close> is the loop, over the items
  from index \<open>i\<close> on, with the variable \<open>notifyIndex\<close>.
\<close>

definition slice :: "'a list \<Rightarrow> nat \<Rightarrow> nat \<Rightarrow> 'a list" where
  "slice xs start finish = take (finish - start) (drop start xs)"

definition notify_pack ::
  "action \<Rightarrow> item option list \<Rightarrow> int \<Rightarrow> item option list \<Rightarrow> int \<Rightarrow> nat \<Rightarrow> nat \<Rightarrow> call list" where
  "notify_pack action newItems newItemsIndex oldItems oldItemsIndex start finish =
     (if start < finish
      then [NotifyLater (OnCollectionChange action
              (slice newItems start finish)
              (if newItems \<noteq> [] then newItemsIndex + int start else 0)
              (slice oldItems start finish)
              (if oldItems \<noteq> [] then oldItemsIndex + int start else 0))]
      else [])"

fun split_by_groups ::
  "(nat \<Rightarrow> nat \<Rightarrow> call list) \<Rightarrow> nat \<Rightarrow> item option list \<Rightarrow> nat \<Rightarrow> nat \<Rightarrow> call list" where
  "split_by_groups notify mx [] i notifyIndex = []"
| "split_by_groups notify mx (it # rest) i notifyIndex =
     (let first = (if isGroupItem it then notify notifyIndex i else []);
          notifyIndex' = (if isGroupItem it then i else notifyIndex);
          last = (if i = mx - 1 then notify notifyIndex' (i + 1) else [])
      in first @ last @ split_by_groups notify mx rest (i + 1) notifyIndex')"

definition notifyCollectionChange ::
  "collection \<Rightarrow> action \<Rightarrow> item option list \<Rightarrow> int \<Rightarrow> item option list \<Rightarrow> int \<Rightarrow>
   session option \<Rightarrow> call list" where
  "notifyCollectionChange st action newItems newItemsIndex oldItems oldItemsIndex session =
     (if \<not> needNotify st then []
      else if session = None \<or> action = ACTION_RESET \<or> \<not> isGrouped st
      then [NotifyLater (OnCollectionChange action newItems newItemsIndex oldItems oldItemsIndex)]
      else
        (let isRemove = (action = ACTION_REMOVE);
             mx = (if isRemove then length oldItems else length newItems)
         in split_by_groups (notify_pack action newItems newItemsIndex oldItems oldItemsIndex)
              mx (if isRemove then oldItems else newItems) 0 0))"

text \<open>
  The runs of the claim, from its words: among the notified items a group begins at its
  header, so a maximal run of items that share a group is an item followed by all the
  items up to the next group header. \<open>group_runs xs off\<close> lists the bounds
  (start, finish) of the runs of \<open>xs\<close>, counted from \<open>off\<close>.
\<close>

function group_runs :: "item option list \<Rightarrow> nat \<Rightarrow> (nat \<times> nat) list" where
  "group_runs [] off = []"
| "group_runs (x # xs) off =
     (let n = length (takeWhile (\<lambda>y. \<not> isGroupItem y) xs)
      in (off, off + Suc n) # group_runs (dropWhile (\<lambda>y. \<not> isGroupItem y) xs) (off + Suc n))"
  by pat_completeness auto
termination
  by (relation "measure (\<lambda>(xs, off). length xs)")
     (auto simp: length_dropWhile_le le_imp_less_Suc)

declare group_runs.simps [simp del]

lemma split_by_groups_skip:
  "\<forall>y\<in>set pre. \<not> isGroupItem y \<Longrightarrow> rest \<noteq> [] \<Longrightarrow> mx = i + length pre + length rest \<Longrightarrow>
   split_by_groups notify mx (pre @ rest) i ni = split_by_groups notify mx rest (i + length pre) ni"
proof (induction pre arbitrary: i)
  case Nil
  then show ?case by simp
next
  case (Cons x pre)
  from Cons.prems have "i \<noteq> mx - 1" by (cases rest) auto
  moreover have "split_by_groups notify mx (pre @ rest) (Suc i) ni =
      split_by_groups notify mx rest (Suc i + length pre) ni"
    using Cons.prems by (intro Cons.IH) auto
  ultimately show ?case using Cons.prems by simp
qed

lemma split_by_groups_tail:
  "\<forall>y\<in>set pre. \<not> isGroupItem y \<Longrightarrow> pre \<noteq> [] \<Longrightarrow> mx = i + length pre \<Longrightarrow>
   split_by_groups notify mx pre i ni = notify ni (i + length pre)"
proof (induction pre arbitrary: i)
  case Nil
  then show ?case by simp
next
  case (Cons x pre)
  show ?case
  proof (cases "pre = []")
    case True
    with Cons.prems show ?thesis by simp
  next
    case False
    with Cons.prems have "i \<noteq> mx - 1" by (cases pre) auto
    moreover have "split_by_groups notify mx pre (Suc i) ni = notify ni (Suc i + length pre)"
      using Cons.prems False by (intro Cons.IH) auto
    ultimately show ?thesis using Cons.prems by simp
  qed
qed

lemma split_by_groups_runs:
  "ys \<noteq> [] \<Longrightarrow> mx = off + length ys \<Longrightarrow> isGroupItem (hd ys) \<or> ni = off \<Longrightarrow>
   split_by_groups notify mx ys off ni =
     (if isGroupItem (hd ys) then notify ni off else []) @
     concat (map (\<lambda>(s, f). notify s f) (group_runs ys off))"
proof (induction ys off arbitrary: ni rule: group_runs.induct)
  case (1 off)
  then show ?case by simp
next
  case (2 x xs off)
  define pre where "pre = takeWhile (\<lambda>y. \<not> isGroupItem y) xs"
  define rest where "rest = dropWhile (\<lambda>y. \<not> isGroupItem y) xs"
  have xs: "xs = pre @ rest" by (simp add: pre_def rest_def)
  have pre: "\<forall>y\<in>set pre. \<not> isGroupItem y"
    by (auto simp: pre_def dest: set_takeWhileD)
  have runs: "group_runs (x # xs) off =
      (off, off + Suc (length pre)) # group_runs rest (off + Suc (length pre))"
    by (simp add: group_runs.simps pre_def rest_def Let_def)
  have ni': "(if isGroupItem x then off else ni) = off"
    using "2.prems" by auto
  have head: "split_by_groups notify mx (x # xs) off ni =
      (if isGroupItem x then notify ni off else []) @
      (if off = mx - 1 then notify off (off + 1) else []) @
      split_by_groups notify mx xs (off + 1) off"
    using ni' by (simp add: Let_def)
  show ?case
  proof (cases "xs = []")
    case True
    then have "pre = []" "rest = []" by (simp_all add: pre_def rest_def)
    with True "2.prems" head runs show ?thesis
      by (simp add: group_runs.simps)
  next
    case False
    with "2.prems" have notlast: "off \<noteq> mx - 1" by (cases xs) auto
    show ?thesis
    proof (cases "rest = []")
      case True
      with xs False have "pre \<noteq> []" and xs': "xs = pre" by auto
      with pre "2.prems" have "split_by_groups notify mx pre (off + 1) off =
          notify off (off + 1 + length pre)"
        by (intro split_by_groups_tail) auto
      with head notlast runs True xs' show ?thesis
        by (simp add: group_runs.simps)
    next
      case False
      then have hd: "isGroupItem (hd rest)"
        using hd_dropWhile [of "\<lambda>y. \<not> isGroupItem y" xs] by (simp add: rest_def)
      have skip: "split_by_groups notify mx (pre @ rest) (off + 1) off =
          split_by_groups notify mx rest (off + 1 + length pre) off"
        using pre False "2.prems" xs by (intro split_by_groups_skip) auto
      have "split_by_groups notify mx rest (off + Suc (length pre)) off =
          (if isGroupItem (hd rest) then notify off (off + Suc (length pre)) else []) @
          concat (map (\<lambda>(s, f). notify s f) (group_runs rest (off + Suc (length pre))))"
        using False hd "2.prems" xs
        by (intro "2.IH" [unfolded pre_def [symmetric] rest_def [symmetric], OF refl]) auto
      with skip hd head notlast runs xs show ?thesis by simp
    qed
  qed
qed

lemma group_runs_nonempty: "(s, f) \<in> set (group_runs ys off) \<Longrightarrow> s < f"
  by (induction ys off rule: group_runs.induct) (auto simp: group_runs.simps Let_def)

lemma group_runs_cover:
  "length pad = off \<Longrightarrow>
   concat (map (\<lambda>(s, f). slice (pad @ ys) s f) (group_runs ys off)) = ys"
proof (induction ys off arbitrary: pad rule: group_runs.induct)
  case (1 off)
  then show ?case by (simp add: group_runs.simps)
next
  case (2 x xs off)
  define pre where "pre = takeWhile (\<lambda>y. \<not> isGroupItem y) xs"
  define rest where "rest = dropWhile (\<lambda>y. \<not> isGroupItem y) xs"
  have xs: "xs = pre @ rest" by (simp add: pre_def rest_def)
  have runs: "group_runs (x # xs) off =
      (off, off + Suc (length pre)) # group_runs rest (off + Suc (length pre))"
    by (simp add: group_runs.simps pre_def rest_def Let_def)
  have first: "slice (pad @ x # xs) off (off + Suc (length pre)) = x # pre"
    using "2.prems" by (simp add: slice_def xs)
  have "concat (map (\<lambda>(s, f). slice ((pad @ x # pre) @ rest) s f)
      (group_runs rest (off + Suc (length pre)))) = rest"
    using "2.prems"
    by (intro "2.IH" [unfolded pre_def [symmetric] rest_def [symmetric], OF refl]) auto
  with first runs xs show ?case by simp
qed

lemma concat_map_singletons:
  "\<forall>r\<in>set rs. f r = [g r] \<Longrightarrow> concat (map f rs) = map g rs"
  by (induction rs) auto

lemma notifyCollectionChange_split:
  assumes "needNotify st" and "session \<noteq> None" and "action \<noteq> ACTION_RESET"
    and "isGrouped st"
  shows "notifyCollectionChange st action newItems newItemsIndex oldItems oldItemsIndex session =
     map (\<lambda>(s, f). NotifyLater (OnCollectionChange action
            (slice newItems s f) (if newItems = [] then 0 else newItemsIndex + int s)
            (slice oldItems s f) (if oldItems = [] then 0 else oldItemsIndex + int s)))
       (group_runs (if action = ACTION_REMOVE then oldItems else newItems) 0)"
proof -
  define src where "src = (if action = ACTION_REMOVE then oldItems else newItems)"
  define notify where
    "notify = notify_pack action newItems newItemsIndex oldItems oldItemsIndex"
  have code: "notifyCollectionChange st action newItems newItemsIndex oldItems oldItemsIndex
      session = split_by_groups notify (length src) src 0 0"
    using assms by (auto simp: notifyCollectionChange_def Let_def src_def notify_def)
  have packs: "concat (map (\<lambda>(s, f). notify s f) (group_runs src 0)) =
      map (\<lambda>(s, f). NotifyLater (OnCollectionChange action
            (slice newItems s f) (if newItems = [] then 0 else newItemsIndex + int s)
            (slice oldItems s f) (if oldItems = [] then 0 else oldItemsIndex + int s)))
        (group_runs src 0)"
  proof -
    have "\<forall>r\<in>set (group_runs src 0). (\<lambda>(s, f). notify s f) r =
        [(\<lambda>(s, f). NotifyLater (OnCollectionChange action
            (slice newItems s f) (if newItems = [] then 0 else newItemsIndex + int s)
            (slice oldItems s f) (if oldItems = [] then 0 else oldItemsIndex + int s))) r]"
      by (auto simp: notify_def notify_pack_def dest: group_runs_nonempty)
    then show ?thesis
      by (rule concat_map_singletons)
  qed
  show ?thesis
  proof (cases "src = []")
    case True
    with code show ?thesis by (simp add: src_def [symmetric] group_runs.simps)
  next
    case False
    then have "split_by_groups notify (length src) src 0 0 =
        (if isGroupItem (hd src) then notify 0 0 else []) @
        concat (map (\<lambda>(s, f). notify s f) (group_runs src 0))"
      by (intro split_by_groups_runs) auto
    moreover have "notify 0 0 = []" by (simp add: notify_def notify_pack_def)
    ultimately show ?thesis using code packs by (simp add: src_def [symmetric])
  qed
qed

text \<open>
  The packets of the claim as it is worded: one per run, every index offset by the start
  of the run.
\<close>

definition claimed_group_packets ::
  "action \<Rightarrow> item option list \<Rightarrow> int \<Rightarrow> item option list \<Rightarrow> int \<Rightarrow> call list" where
  "claimed_group_packets action newItems newItemsIndex oldItems oldItemsIndex =
     map (\<lambda>(s, f). NotifyLater (OnCollectionChange action
            (slice newItems s f) (newItemsIndex + int s)
            (slice oldItems s f) (oldItemsIndex + int s)))
       (group_runs (if action = ACTION_REMOVE then oldItems else newItems) 0)"

text \<open>
  \<open>_notifyBeforeCollectionChange\<close> and \<open>_notifyAfterCollectionChange\<close>: nothing
  when events are not raised; otherwise the first is queued and the second is notified
  at once.
\<close>

definition notifyBeforeCollectionChange :: "collection \<Rightarrow> call list" where
  "notifyBeforeCollectionChange st =
     (if \<not> eventRaising st then [] else [NotifyLater OnBeforeCollectionChange])"

definition notifyAfterCollectionChange :: "collection \<Rightarrow> call list" where
  "notifyAfterCollectionChange st =
     (if \<not> eventRaising st then [] else [Notify OnAfterCollectionChange])"

section \<open>Collaborators\<close>

text \<open>
  The classes CollectionEnumerator, the items strategies, EventRaisingMixin and the source
  collection are not part of the sources. What the code of Collection asks of them is a
  parameter of the model: the queries of the utility enumerator, of the strategy and of
  the source return a value or throw; the cursor enumerator, the session functions and
  the recomputations (\<open>invalidate\<close>, \<open>_reSort\<close>, \<open>_reFilter\<close>,
  \<open>_reAnalize\<close>, which run the strategies and the user's handlers) map a state to the
  next one, with the notification calls they make. \<open>_startUpdateSession\<close> takes a
  snapshot and changes nothing (spec, 4.7). No statement below depends on what the
  parameters compute beyond what its hypotheses say.
\<close>

record env =
  getIndexByValue :: "collection \<Rightarrow> nat \<Rightarrow> error + int"
  getSourceByInternal :: "collection \<Rightarrow> int \<Rightarrow> error + int option"
  getInternalBySource :: "collection \<Rightarrow> int \<Rightarrow> error + int option"
  enumerator_at :: "collection \<Rightarrow> int \<Rightarrow> error + item option"
  getDisplayIndex :: "collection \<Rightarrow> int \<Rightarrow> error + int"
  getCollectionIndex :: "collection \<Rightarrow> int \<Rightarrow> error + int"
  source_getIndex :: "collection \<Rightarrow> nat \<Rightarrow> error + int"
  cursor_setCurrent :: "collection \<Rightarrow> jsref \<Rightarrow> collection"
  cursor_setPosition :: "collection \<Rightarrow> int \<Rightarrow> collection"
  startUpdateSession :: "collection \<Rightarrow> session option"
  finishUpdateSession :: "collection \<Rightarrow> session option \<Rightarrow> bool \<Rightarrow> collection \<times> call list"
  invalidateStrategy :: "collection \<Rightarrow> collection"
  reSort :: "collection \<Rightarrow> collection"
  reFilter :: "collection \<Rightarrow> collection"
  reAnalize :: "collection \<Rightarrow> int \<Rightarrow> int option \<Rightarrow> collection \<times> call list"
  extractPacksByList :: "collection \<Rightarrow> item option list \<Rightarrow> (item option list \<times> int) list"

text \<open>
  Positions in arrays: \<open>index_of\<close> is \<open>indexOf\<close> (the first position of an
  element, or -1), \<open>nth_opt\<close> is indexing (\<open>undefined\<close> out of range).
\<close>

definition index_of :: "'a list \<Rightarrow> 'a \<Rightarrow> int" where
  "index_of xs x = (if x \<in> set xs then int (length (takeWhile (\<lambda>y. y \<noteq> x) xs)) else - 1)"

definition nth_opt :: "'a list \<Rightarrow> int \<Rightarrow> 'a option" where
  "nth_opt xs i = (if 0 \<le> i \<and> i < int (length xs) then Some (xs ! nat i) else None)"

fun instanceId :: "item \<Rightarrow> nat" where
  "instanceId (CollectionItem n) = n"
| "instanceId (GroupItem n) = n"

text \<open>
  Collaborators used in the examples, for a projection without group headers and without
  hidden items: the visible sequence is the items in the order of the sort map, source
  and item indices agree, sessions report nothing, and every changed item is a pack of
  its own. The cursor moves to the item or the position it is asked for when the
  projection has it, and otherwise has no current item (\<open>undefined\<close>, at position
  -1, the one position outside the projection that the cursor of the spec, 4.6, can
  take).
\<close>

definition visible :: "collection \<Rightarrow> item option list" where
  "visible st = map (\<lambda>i. nth_opt (items st) (int i)) (sortMap st)"

definition plain_env :: env where
  "plain_env = \<lparr>
     getIndexByValue = (\<lambda>st n. Inr (index_of (map (map_option instanceId) (visible st)) (Some n))),
     getSourceByInternal = (\<lambda>st p. Inr (map_option int (nth_opt (sortMap st) p))),
     getInternalBySource = (\<lambda>st i.
        Inr (if i \<in> set (map int (sortMap st)) then Some (index_of (map int (sortMap st)) i)
             else None)),
     enumerator_at = (\<lambda>st p. Inr (if 0 \<le> p \<and> p < int (length (visible st))
                                  then visible st ! nat p else None)),
     getDisplayIndex = (\<lambda>st i. Inr i),
     getCollectionIndex = (\<lambda>st i. Inr i),
     source_getIndex = (\<lambda>st x. Inr (index_of (source st) x)),
     cursor_setCurrent = (\<lambda>st it.
        case it of
          Ref i \<Rightarrow>
            if Some i \<in> set (visible st)
            then st\<lparr>current := Ref i, position := index_of (visible st) (Some i)\<rparr>
            else st\<lparr>current := Undefined, position := - 1\<rparr>
        | _ \<Rightarrow> st\<lparr>current := Undefined, position := - 1\<rparr>),
     cursor_setPosition = (\<lambda>st p.
        case (if 0 \<le> p \<and> p < int (length (visible st)) then visible st ! nat p else None) of
          Some i \<Rightarrow> st\<lparr>current := Ref i, position := p\<rparr>
        | None \<Rightarrow> st\<lparr>current := Undefined, position := - 1\<rparr>),
     startUpdateSession = (\<lambda>st. if eventRaising st then Some (items st) else None),
     finishUpdateSession = (\<lambda>st session analize. (st, [])),
     invalidateStrategy = (\<lambda>st. st),
     reSort = (\<lambda>st. st\<lparr>sortMap := [0..<length (items st)]\<rparr>),
     reFilter = (\<lambda>st. st),
     reAnalize = (\<lambda>st start count. (st, [])),
     extractPacksByList = (\<lambda>st diff. map (\<lambda>it. ([it], index_of (visible st) it)) diff)\<rparr>"

section \<open>Filter and sort handlers\<close>

text \<open>
  \<open>getFilter\<close> and \<open>getSort\<close> return \<open>this._$filter.slice()\<close> and
  \<open>this._$sort.slice()\<close>: a new array object with the same elements. The model
  allocates it at the next free address of the store and returns that address. A caller
  that mutates an array it holds writes new contents at its address.
\<close>

definition the_filter :: "collection \<Rightarrow> handler list" where
  "the_filter st = arrays st ! filter_ref st"

definition the_sort :: "collection \<Rightarrow> handler list" where
  "the_sort st = arrays st ! sort_ref st"

definition getFilter :: "collection \<Rightarrow> nat \<times> collection" where
  "getFilter st = (length (arrays st), st\<lparr>arrays := arrays st @ [the_filter st]\<rparr>)"

definition getSort :: "collection \<Rightarrow> nat \<times> collection" where
  "getSort st = (length (arrays st), st\<lparr>arrays := arrays st @ [the_sort st]\<rparr>)"

definition write_array :: "collection \<Rightarrow> nat \<Rightarrow> handler list \<Rightarrow> collection" where
  "write_array st a hs = st\<lparr>arrays := (arrays st)[a := hs]\<rparr>"

definition refs_valid :: "collection \<Rightarrow> bool" where
  "refs_valid st \<longleftrightarrow> filter_ref st < length (arrays st) \<and> sort_ref st < length (arrays st)"

text \<open>
  \<open>normalizeHandlers\<close>: a function becomes a one-element list, an array keeps its
  functions, anything else gives the empty list. \<open>functions_of\<close> is
  \<open>filter((item) => typeof item === 'function')\<close>.
\<close>

fun functions_of :: "arg list \<Rightarrow> handler list" where
  "functions_of [] = []"
| "functions_of (Func h # rest) = h # functions_of rest"
| "functions_of (_ # rest) = functions_of rest"

fun normalizeHandlers :: "arg \<Rightarrow> handler list" where
  "normalizeHandlers (Func h) = [h]"
| "normalizeHandlers (ArrayOf xs) = functions_of xs"
| "normalizeHandlers NonFunction = []"

text \<open>
  The important properties: \<open>_setImportantProperty\<close> pushes a name that is not in the
  list, \<open>_unsetImportantProperty\<close> splices its first occurrence out,
  \<open>_functorToImportantProperties\<close> does one or the other for every property of a
  functor, \<open>_switchImportantPropertiesByUserSort\<close> for every sort handler.
\<close>

definition setImportantProperty :: "string \<Rightarrow> collection \<Rightarrow> collection" where
  "setImportantProperty name st =
     (if name \<in> set (importantItemProperties st) then st
      else st\<lparr>importantItemProperties := importantItemProperties st @ [name]\<rparr>)"

definition unsetImportantProperty :: "string \<Rightarrow> collection \<Rightarrow> collection" where
  "unsetImportantProperty name st =
     st\<lparr>importantItemProperties := remove1 name (importantItemProperties st)\<rparr>"

fun functorToImportantProperties :: "handler \<Rightarrow> bool \<Rightarrow> collection \<Rightarrow> collection" where
  "functorToImportantProperties (Handler _ None) adding st = st"
| "functorToImportantProperties (Handler _ (Some properties)) adding st =
     fold (\<lambda>name. if adding then setImportantProperty name else unsetImportantProperty name)
       properties st"

definition switchImportantPropertiesByUserSort :: "bool \<Rightarrow> collection \<Rightarrow> collection" where
  "switchImportantPropertiesByUserSort adding st =
     fold (\<lambda>h. functorToImportantProperties h adding) (the_sort st) st"

definition isFiltered :: "collection \<Rightarrow> bool" where
  "isFiltered st \<longleftrightarrow> the_filter st \<noteq> []"

text \<open>
  The comparison loop of \<open>setFilter\<close> and \<open>setSort\<close>, run when the two lists have
  the same length: \<open>changed\<close> becomes true at the first index whose elements are not
  the same object.
\<close>

fun handlers_changed :: "handler list \<Rightarrow> arg list \<Rightarrow> bool" where
  "handlers_changed (h # hs) (a # rest) = (if Func h \<noteq> a then True else handlers_changed hs rest)"
| "handlers_changed _ _ = False"

text \<open>
  \<open>setFilter(...args)\<close> takes the array passed as first argument, or the arguments
  themselves; returns when the lists are the same; otherwise stores a new array of the
  functions among them and re-filters within an update session. \<open>setSort(...args)\<close>
  opens the session first, compares in the same way, and otherwise empties the array
  \<open>_$sort\<close> in place and pushes the normalised handlers into it, between the two
  switches of the important properties, then invalidates the strategy, re-sorts,
  re-filters if a filter is set, and finishes the session.
\<close>

definition setFilter :: "env \<Rightarrow> collection \<Rightarrow> arg list \<Rightarrow> collection \<times> call list" where
  "setFilter e st args =
     (let filters = (case args of ArrayOf xs # _ \<Rightarrow> xs | _ \<Rightarrow> args)
      in if length (the_filter st) = length filters \<and> \<not> handlers_changed (the_filter st) filters
         then (st, [])
         else
           (let st1 = st\<lparr>arrays := arrays st @ [functions_of filters],
                         filter_ref := length (arrays st)\<rparr>;
                session = startUpdateSession e st1;
                st2 = reFilter e st1
            in finishUpdateSession e st2 session True))"

definition setSort :: "env \<Rightarrow> collection \<Rightarrow> arg list \<Rightarrow> collection \<times> call list" where
  "setSort e st args =
     (let session = startUpdateSession e st;
          sorts = (case args of ArrayOf xs # _ \<Rightarrow> xs | _ \<Rightarrow> args)
      in if length (the_sort st) = length sorts \<and> \<not> handlers_changed (the_sort st) sorts
         then (st, [])
         else
           (let st1 = switchImportantPropertiesByUserSort False st;
                st2 = st1\<lparr>arrays := (arrays st1)[sort_ref st1 := normalizeHandlers (ArrayOf sorts)]\<rparr>;
                st3 = switchImportantPropertiesByUserSort True st2;
                st4 = invalidateStrategy e st3;
                st5 = reSort e st4;
                st6 = (if isFiltered st5 then reFilter e st5 else st5)
            in finishUpdateSession e st6 session True))"

lemma handlers_unchanged: "\<not> handlers_changed hs (map Func hs)"
  by (induction hs) auto

lemma rest_args_of_functions:
  "(case map Func hs of ArrayOf xs # _ \<Rightarrow> xs | _ \<Rightarrow> map Func hs) = map Func hs"
  by (cases hs) auto

section \<open>The cursor\<close>






section \<open>Coordinate queries\<close>

text \<open>
  The argument of \<open>getIndex\<close> is any value: an item, or something that is not an
  instance of CollectionItem. The queries pass an error of a collaborator on to the
  caller and have no statement of their own that throws. \<open>each_index\<close> is the
  loop of \<open>getIndexBySourceItem\<close> over a source that is not a list: the index of the
  first value that is the item, or -1.
\<close>

datatype jsvalue = ItemRef item | OtherValue

definition getIndexByInstanceId :: "env \<Rightarrow> collection \<Rightarrow> nat \<Rightarrow> error + int" where
  "getIndexByInstanceId e st n = getIndexByValue e st n"

definition item_at :: "env \<Rightarrow> collection \<Rightarrow> int \<Rightarrow> error + item option" where
  "item_at e st index = enumerator_at e st index"

definition getIndex :: "env \<Rightarrow> collection \<Rightarrow> jsvalue \<Rightarrow> error + int" where
  "getIndex e st v =
     (case v of
        OtherValue \<Rightarrow> Inr (- 1)
      | ItemRef it \<Rightarrow> getIndexByInstanceId e st (instanceId it))"

definition getItemIndex :: "env \<Rightarrow> collection \<Rightarrow> int \<Rightarrow> error + int" where
  "getItemIndex e st index = getDisplayIndex e st index"

definition getSourceIndex :: "env \<Rightarrow> collection \<Rightarrow> int \<Rightarrow> error + int" where
  "getSourceIndex e st index = getCollectionIndex e st index"

definition getSourceIndexByIndex :: "env \<Rightarrow> collection \<Rightarrow> int \<Rightarrow> error + int" where
  "getSourceIndexByIndex e st index =
     (case getSourceByInternal e st index of
        Inl err \<Rightarrow> Inl err
      | Inr sourceIndex \<Rightarrow>
          getSourceIndex e st (case sourceIndex of None \<Rightarrow> - 1 | Some i \<Rightarrow> i))"

definition getSourceIndexByItem :: "env \<Rightarrow> collection \<Rightarrow> jsvalue \<Rightarrow> error + int" where
  "getSourceIndexByItem e st v =
     (case getIndex e st v of
        Inl err \<Rightarrow> Inl err
      | Inr index \<Rightarrow> if index = - 1 then Inr (- 1) else getSourceIndexByIndex e st index)"

definition getIndexBySourceIndex :: "env \<Rightarrow> collection \<Rightarrow> int \<Rightarrow> error + int" where
  "getIndexBySourceIndex e st index =
     (case getItemIndex e st index of
        Inl err \<Rightarrow> Inl err
      | Inr index' \<Rightarrow>
          (case getInternalBySource e st index' of
             Inl err \<Rightarrow> Inl err
           | Inr itemIndex \<Rightarrow> Inr (case itemIndex of None \<Rightarrow> - 1 | Some i \<Rightarrow> i)))"

fun each_index :: "nat list \<Rightarrow> nat \<Rightarrow> int \<Rightarrow> int \<Rightarrow> int" where
  "each_index [] x sourceIndex index = sourceIndex"
| "each_index (v # vs) x sourceIndex index =
     each_index vs x (if sourceIndex = - 1 \<and> v = x then index else sourceIndex) (index + 1)"

definition getIndexBySourceItem :: "env \<Rightarrow> collection \<Rightarrow> nat \<Rightarrow> error + int" where
  "getIndexBySourceItem e st x =
     (case (if sourceIsList st then source_getIndex e st x
            else Inr (each_index (source st) x (- 1) 0)) of
        Inl err \<Rightarrow> Inl err
      | Inr sourceIndex \<Rightarrow>
          if sourceIndex = - 1 then Inr (- 1) else getIndexBySourceIndex e st sourceIndex)"

definition getItemBySourceIndex :: "env \<Rightarrow> collection \<Rightarrow> int \<Rightarrow> error + item option" where
  "getItemBySourceIndex e st index =
     (case getIndexBySourceIndex e st index of
        Inl err \<Rightarrow> Inl err
      | Inr index' \<Rightarrow> if index' = - 1 then Inr None else item_at e st index')"

definition getItemBySourceItem :: "env \<Rightarrow> collection \<Rightarrow> nat \<Rightarrow> error + item option" where
  "getItemBySourceItem e st x =
     (case getIndexBySourceItem e st x of
        Inl err \<Rightarrow> Inl err
      | Inr index \<Rightarrow> if index = - 1 then Inr None else item_at e st index)"

text \<open>The collaborators of the queries return: none of them throws, on any input.\<close>

definition queries_return :: "env \<Rightarrow> bool" where
  "queries_return e \<longleftrightarrow>
     (\<forall>st n. \<not> isl (getIndexByValue e st n)) \<and>
     (\<forall>st i. \<not> isl (getSourceByInternal e st i)) \<and>
     (\<forall>st i. \<not> isl (getInternalBySource e st i)) \<and>
     (\<forall>st i. \<not> isl (enumerator_at e st i)) \<and>
     (\<forall>st i. \<not> isl (getDisplayIndex e st i)) \<and>
     (\<forall>st i. \<not> isl (getCollectionIndex e st i)) \<and>
     (\<forall>st x. \<not> isl (source_getIndex e st x))"

lemma each_index_absent: "x \<notin> set vs \<Longrightarrow> each_index vs x (- 1) index = - 1"
  by (induction vs arbitrary: index) auto

lemma queries_return_plain_env: "queries_return plain_env"
  by (simp add: queries_return_def plain_env_def)

section \<open>Selection\<close>

text \<open>
  \<open>_setSelectedItems(selecItems, selected)\<close> walks the array from its last element
  to its first; an element whose flag differs gets the flag (silently) and is pushed to
  the list of changed items. Reading \<open>isSelected\<close> of \<open>undefined\<close> is a TypeError,
  which leaves the flags set so far and skips the notification. With at least one changed
  item, the change is announced between the before and after notifications as a replace
  at the index of the first changed item, without a session.
  \<open>select_loop\<close> is the loop, over the elements still to visit.
\<close>

fun select_loop ::
  "(item \<Rightarrow> bool) \<Rightarrow> bool \<Rightarrow> item option list \<Rightarrow> item list \<Rightarrow>
   error option \<times> (item \<Rightarrow> bool) \<times> item list" where
  "select_loop sel flag [] changed = (None, sel, changed)"
| "select_loop sel flag (None # rest) changed = (Some TypeError, sel, changed)"
| "select_loop sel flag (Some it # rest) changed =
     (if sel it \<noteq> flag then select_loop (sel(it := flag)) flag rest (changed @ [it])
      else select_loop sel flag rest changed)"

definition setSelectedItems_inner ::
  "env \<Rightarrow> collection \<Rightarrow> item option list \<Rightarrow> bool \<Rightarrow> error option \<times> collection \<times> call list" where
  "setSelectedItems_inner e st selecItems flag =
     (case select_loop (selected st) flag (rev selecItems) [] of
        (Some err, sel, changed) \<Rightarrow> (Some err, st\<lparr>selected := sel\<rparr>, [])
      | (None, sel, changed) \<Rightarrow>
          (let st1 = st\<lparr>selected := sel\<rparr>
           in if changed \<noteq> []
              then
                (case getIndex e st1 (ItemRef (hd changed)) of
                   Inl err \<Rightarrow> (Some err, st1, [])
                 | Inr index \<Rightarrow>
                     (None, st1,
                      notifyBeforeCollectionChange st1 @
                      notifyCollectionChange st1 ACTION_REPLACE
                        (map Some changed) index (map Some changed) index None @
                      notifyAfterCollectionChange st1))
              else (None, st1, [])))"

text \<open>
  \<open>setSelectedItems(items, selected)\<close> looks every source item up with
  \<open>getItemBySourceItem\<close>, in order, and hands the results (items or
  \<open>undefined\<close>) to \<open>_setSelectedItems\<close>; \<open>setSelectedItemsAll\<close> hands all the
  items over. \<open>invertSelectedItemsAll\<close> flips the flag of every item, from the last
  to the first, and then announces a reset with all the items, at index 0.
\<close>

fun collect_source_items :: "env \<Rightarrow> collection \<Rightarrow> nat list \<Rightarrow> error + item option list" where
  "collect_source_items e st [] = Inr []"
| "collect_source_items e st (x # xs) =
     (case getItemBySourceItem e st x of
        Inl err \<Rightarrow> Inl err
      | Inr r \<Rightarrow>
          (case collect_source_items e st xs of
             Inl err \<Rightarrow> Inl err
           | Inr rs \<Rightarrow> Inr (r # rs)))"

definition setSelectedItems ::
  "env \<Rightarrow> collection \<Rightarrow> nat list \<Rightarrow> bool \<Rightarrow> error option \<times> collection \<times> call list" where
  "setSelectedItems e st xs flag =
     (case collect_source_items e st xs of
        Inl err \<Rightarrow> (Some err, st, [])
      | Inr sourceItems \<Rightarrow> setSelectedItems_inner e st sourceItems flag)"

definition setSelectedItemsAll ::
  "env \<Rightarrow> collection \<Rightarrow> bool \<Rightarrow> error option \<times> collection \<times> call list" where
  "setSelectedItemsAll e st flag = setSelectedItems_inner e st (map Some (items st)) flag"

definition invertSelectedItemsAll :: "collection \<Rightarrow> collection \<times> call list" where
  "invertSelectedItemsAll st =
     (let st1 = st\<lparr>selected := fold (\<lambda>it sel. sel(it := \<not> sel it)) (rev (items st)) (selected st)\<rparr>
      in (st1,
          notifyBeforeCollectionChange st1 @
          notifyCollectionChange st1 ACTION_RESET
            (map Some (items st)) 0 (map Some (items st)) 0 None @
          notifyAfterCollectionChange st1))"

lemma select_loop_items:
  "\<exists>more. select_loop sel flag (map Some ys) changed =
      (None, (\<lambda>it. if it \<in> set ys then flag else sel it), changed @ more) \<and>
      set more = {it \<in> set ys. sel it \<noteq> flag}"
proof (induction ys arbitrary: sel changed)
  case Nil
  then show ?case by simp
next
  case (Cons y ys)
  show ?case
  proof (cases "sel y \<noteq> flag")
    case True
    from Cons.IH [of "sel(y := flag)" "changed @ [y]"] obtain more where more:
      "select_loop (sel(y := flag)) flag (map Some ys) (changed @ [y]) =
         (None, (\<lambda>it. if it \<in> set ys then flag else (sel(y := flag)) it), (changed @ [y]) @ more)"
      "set more = {it \<in> set ys. (sel(y := flag)) it \<noteq> flag}"
      by blast
    have "(\<lambda>it. if it \<in> set ys then flag else (sel(y := flag)) it) =
        (\<lambda>it. if it \<in> set (y # ys) then flag else sel it)"
      by auto
    moreover have "set (y # more) = {it \<in> set (y # ys). sel it \<noteq> flag}"
      using True more(2) by auto
    ultimately show ?thesis
      using True more(1) by (intro exI [of _ "y # more"]) simp
  next
    case False
    from Cons.IH [of sel changed] obtain more where more:
      "select_loop sel flag (map Some ys) changed =
         (None, (\<lambda>it. if it \<in> set ys then flag else sel it), changed @ more)"
      "set more = {it \<in> set ys. sel it \<noteq> flag}"
      by blast
    have "(\<lambda>it. if it \<in> set ys then flag else sel it) =
        (\<lambda>it. if it \<in> set (y # ys) then flag else sel it)"
      using False by auto
    moreover have "set more = {it \<in> set (y # ys). sel it \<noteq> flag}"
      using False more(2) by auto
    ultimately show ?thesis
      using False more(1) by (intro exI [of _ more]) simp
  qed
qed

lemma getIndex_returns: "queries_return e \<Longrightarrow> \<exists>index. getIndex e st v = Inr index"
proof -
  assume "queries_return e"
  then have "\<not> isl (getIndexByValue e st n)" for n by (simp add: queries_return_def)
  then have "\<not> isl (getIndex e st v)"
    by (simp add: getIndex_def getIndexByInstanceId_def split: jsvalue.split)
  then show ?thesis by (cases "getIndex e st v") auto
qed

lemma setSelectedItems_inner_items:
  assumes "queries_return e" and "needNotify st"
  shows "\<exists>changed index.
     set changed = {it \<in> set its. selected st it \<noteq> flag} \<and>
     setSelectedItems_inner e st (map Some its) flag =
       (None, st\<lparr>selected := (\<lambda>it. if it \<in> set its then flag else selected st it)\<rparr>,
        if changed = [] then []
        else notifyBeforeCollectionChange st @
             [NotifyLater (OnCollectionChange ACTION_REPLACE
                (map Some changed) index (map Some changed) index)] @
             notifyAfterCollectionChange st)"
proof -
  from select_loop_items [of "selected st" flag "rev its" "[]"] obtain changed where ch:
    "select_loop (selected st) flag (map Some (rev its)) [] =
       (None, (\<lambda>it. if it \<in> set (rev its) then flag else selected st it), changed)"
    "set changed = {it \<in> set (rev its). selected st it \<noteq> flag}"
    by auto
  define st1 where
    "st1 = st\<lparr>selected := (\<lambda>it. if it \<in> set its then flag else selected st it)\<rparr>"
  from getIndex_returns [OF assms(1)] obtain index where
    index: "getIndex e st1 (ItemRef (hd changed)) = Inr index"
    by blast
  have "setSelectedItems_inner e st (map Some its) flag =
      (None, st1,
       if changed = [] then []
       else notifyBeforeCollectionChange st @
            [NotifyLater (OnCollectionChange ACTION_REPLACE
               (map Some changed) index (map Some changed) index)] @
            notifyAfterCollectionChange st)"
    using ch(1) index assms(2)
    by (simp add: setSelectedItems_inner_def rev_map st1_def [symmetric] Let_def
        notifyCollectionChange_def notifyBeforeCollectionChange_def
        notifyAfterCollectionChange_def)
       (simp add: st1_def)
  with ch(2) show ?thesis unfolding st1_def by (intro exI [of _ changed] exI [of _ index]) simp
qed

section \<open>Changes of a source item\<close>

text \<open>
  The state of an item for the analysis of a session is the item with its
  \<open>selected\<close> flag. \<open>_getItemsDiff(before, after)\<close> keeps the items of
  \<open>after\<close> one of whose two properties differs from the state at the same index of
  \<open>before\<close>; an index that \<open>before\<close> does not have is a TypeError.
\<close>

type_synonym item_state = "item \<times> bool"

definition getItemsState :: "collection \<Rightarrow> item list \<Rightarrow> item_state list" where
  "getItemsState st its = map (\<lambda>it. (it, selected st it)) its"

fun getItemsDiff :: "item_state list \<Rightarrow> item_state list \<Rightarrow> error + item list" where
  "getItemsDiff before [] = Inr []"
| "getItemsDiff [] (itemNow # after) = Inl TypeError"
| "getItemsDiff (itemThen # before) (itemNow # after) =
     (case getItemsDiff before after of
        Inl err \<Rightarrow> Inl err
      | Inr diff \<Rightarrow>
          Inr (if fst itemNow \<noteq> fst itemThen \<or> snd itemNow \<noteq> snd itemThen
               then fst itemNow # diff else diff))"

text \<open>
  The callback that \<open>_notifySourceCollectionItemChange\<close> passes to
  \<open>_checkItemsDiff\<close>. The two positions are numbers or \<open>undefined\<close>, and a
  comparison with \<open>undefined\<close> is false. \<open>splice_one\<close> is \<open>splice(i, 1)\<close>.
\<close>

definition js_less :: "int option \<Rightarrow> int option \<Rightarrow> bool" where
  "js_less x y = (case (x, y) of (Some m, Some n) \<Rightarrow> m < n | _ \<Rightarrow> False)"

definition splice_one :: "'a list \<Rightarrow> int \<Rightarrow> 'a list" where
  "splice_one xs i = take (nat i) xs @ drop (nat i + 1) xs"

definition beforeCheck ::
  "item option \<Rightarrow> bool \<Rightarrow> int option \<Rightarrow> int option \<Rightarrow> item option list \<Rightarrow> item option list" where
  "beforeCheck internalItem isMoved indexBefore indexAfter diff =
     (let internalItemIndex = index_of diff internalItem
      in if isMoved
         then
           (if internalItemIndex > - 1 \<and> js_less indexAfter indexBefore
            then splice_one diff internalItemIndex
            else if internalItemIndex = - 1 \<and> js_less indexBefore indexAfter
            then diff @ [internalItem]
            else diff)
         else if \<not> isMoved \<and> internalItemIndex = - 1
         then diff @ [internalItem]
         else diff)"

text \<open>
  \<open>_checkItemsDiff(session, items, state, beforeCheck)\<close>: the diff of the items
  against the saved state (empty without one), adjusted by the callback; when it is not
  empty, a change notification per pack of \<open>_extractPacksByList\<close>, between the before
  and after notifications.
\<close>

definition checkItemsDiff ::
  "env \<Rightarrow> collection \<Rightarrow> session option \<Rightarrow> item list \<Rightarrow> item_state list option \<Rightarrow>
   (item option list \<Rightarrow> item option list) \<Rightarrow> error option \<times> call list" where
  "checkItemsDiff e st session its state check =
     (case (case state of None \<Rightarrow> Inr [] | Some s \<Rightarrow> getItemsDiff s (getItemsState st its)) of
        Inl err \<Rightarrow> (Some err, [])
      | Inr d \<Rightarrow>
          (let diff = check (map Some d)
           in (None,
               if diff \<noteq> []
               then notifyBeforeCollectionChange st @
                    concat (map (\<lambda>(pack, index).
                                   notifyCollectionChange st ACTION_CHANGE pack index pack index session)
                              (extractPacksByList e st diff)) @
                    notifyAfterCollectionChange st
               else [])))"

text \<open>
  \<open>_notifySourceCollectionItemChange(event, item, index, properties)\<close>.
  \<open>properties\<close> is the list of the own keys of the object passed (empty when none is
  passed). The positions of the item are taken before and after the re-analysis, which
  runs only when one of the keys is an important property; the state of the items is
  saved before it only when events are raised. Without events the handler returns after
  the re-analysis. Otherwise it closes its session without analysis and checks the diff.
\<close>

definition notifySourceCollectionItemChange ::
  "env \<Rightarrow> collection \<Rightarrow> int \<Rightarrow> string list \<Rightarrow> error option \<times> collection \<times> call list" where
  "notifySourceCollectionItemChange e st index properties =
     (let internalItems = items st
      in case getItemIndex e st index of
           Inl err \<Rightarrow> (Some err, st, [])
         | Inr internalIndexBefore \<Rightarrow>
      (let internalItem = nth_opt internalItems internalIndexBefore
       in case getInternalBySource e st internalIndexBefore of
            Inl err \<Rightarrow> (Some err, st, [])
          | Inr indexBefore \<Rightarrow>
      (let isEventRaising = eventRaising st;
           session = startUpdateSession e st;
           important = list_ex (\<lambda>key. key \<in> set (importantItemProperties st)) properties;
           state = (if important \<and> isEventRaising
                    then Some (getItemsState st internalItems) else None);
           (st1, calls1) = (if important then reAnalize e st index (Some 1) else (st, []))
       in if \<not> isEventRaising then (None, st1, calls1)
          else
            (let (st2, calls2) = finishUpdateSession e st1 session False
             in case getItemIndex e st2 index of
                  Inl err \<Rightarrow> (Some err, st2, calls1 @ calls2)
                | Inr internalIndexAfter \<Rightarrow>
                    (case getInternalBySource e st2 internalIndexAfter of
                       Inl err \<Rightarrow> (Some err, st2, calls1 @ calls2)
                     | Inr indexAfter \<Rightarrow>
                         (let isMoved = (indexBefore \<noteq> indexAfter);
                              (err, calls3) =
                                checkItemsDiff e st2 session internalItems state
                                  (beforeCheck internalItem isMoved indexBefore indexAfter)
                          in (err, st2, calls1 @ calls2 @ calls3)))))))"

text \<open>
  Collaborators for the examples of a moving item: the re-analysis reverses the order of
  the projection, selects the second and the third item, and reports a move;
  \<open>moved_example\<close> is the example state after it.
\<close>

definition moving_env :: env where
  "moving_env = plain_env\<lparr>reAnalize := (\<lambda>st start count.
     (st\<lparr>sortMap := rev (sortMap st),
         selected := (selected st)(CollectionItem 12 := True, CollectionItem 13 := True)\<rparr>,
      [NotifyLater OnBeforeCollectionChange,
       NotifyLater (OnCollectionChange ACTION_MOVE [Some (CollectionItem 13)] 0
                      [Some (CollectionItem 13)] 2),
       Notify OnAfterCollectionChange]))\<rparr>"

definition moved_example :: collection where
  "moved_example = example\<lparr>sortMap := [2, 1, 0],
     selected := (\<lambda>_. False)(CollectionItem 12 := True, CollectionItem 13 := True)\<rparr>"

text \<open>The items carried by the change packets among the calls of a run.\<close>

definition change_items :: "call list \<Rightarrow> item option set" where
  "change_items calls =
     (\<Union>c\<in>set calls.
        case c of
          NotifyLater (OnCollectionChange a new i old j) \<Rightarrow>
            if a = ACTION_CHANGE then set new else {}
        | _ \<Rightarrow> {})"

lemma change_items_append [simp]:
  "change_items (xs @ ys) = change_items xs \<union> change_items ys"
  by (simp add: change_items_def)

lemma change_items_Nil [simp]: "change_items [] = {}"
  by (simp add: change_items_def)

lemma change_items_before_after [simp]:
  "change_items (notifyBeforeCollectionChange st) = {}"
  "change_items (notifyAfterCollectionChange st) = {}"
  by (simp_all add: change_items_def notifyBeforeCollectionChange_def
      notifyAfterCollectionChange_def)

lemma change_items_concat:
  "change_items (concat (map f ps)) = (\<Union>p\<in>set ps. change_items (f p))"
  by (induction ps) simp_all

lemma change_items_notify:
  assumes "needNotify st"
  shows "change_items (notifyCollectionChange st ACTION_CHANGE pack i pack j session) = set pack"
proof (cases "session = None \<or> \<not> isGrouped st")
  case True
  with assms show ?thesis
    by (auto simp: notifyCollectionChange_def change_items_def)
next
  case False
  then have split: "notifyCollectionChange st ACTION_CHANGE pack i pack j session =
      map (\<lambda>(s, f). NotifyLater (OnCollectionChange ACTION_CHANGE
             (slice pack s f) (if pack = [] then 0 else i + int s)
             (slice pack s f) (if pack = [] then 0 else j + int s)))
        (group_runs pack 0)"
    using assms notifyCollectionChange_split [of st session ACTION_CHANGE pack i pack j]
    by simp
  have packets: "change_items (map (\<lambda>(s, f). NotifyLater (OnCollectionChange ACTION_CHANGE
             (slice pack s f) (if pack = [] then 0 else i + int s)
             (slice pack s f) (if pack = [] then 0 else j + int s))) rs) =
      set (concat (map (\<lambda>(s, f). slice pack s f) rs))" for rs
    by (induction rs) (auto simp: change_items_def)
  have cover: "concat (map (\<lambda>(s, f). slice pack s f) (group_runs pack 0)) = pack"
    using group_runs_cover [of "[]" 0 pack] by simp
  show ?thesis
    unfolding split packets cover ..
qed

lemma getItemsDiff_same_items:
  "getItemsDiff (getItemsState st0 its) (getItemsState st2 its) =
     Inr (filter (\<lambda>it. selected st2 it \<noteq> selected st0 it) its)"
  by (induction its) (simp_all add: getItemsState_def)

lemma index_of_member: "index_of xs x > - 1 \<longleftrightarrow> x \<in> set xs"
  by (simp add: index_of_def)

lemma index_of_absent: "index_of xs x = - 1 \<longleftrightarrow> x \<notin> set xs"
  by (simp add: index_of_def)

lemma splice_one_index_of: "x \<in> set xs \<Longrightarrow> splice_one xs (index_of xs x) = remove1 x xs"
  by (induction xs) (auto simp: splice_one_def index_of_def)

lemma beforeCheck_member:
  assumes "distinct diff"
  shows "x \<in> set (beforeCheck x isMoved indexBefore indexAfter diff) \<longleftrightarrow>
     (if isMoved
      then (if js_less indexAfter indexBefore then False
            else if js_less indexBefore indexAfter then True
            else x \<in> set diff)
      else True)"
  using assms
  by (auto simp: beforeCheck_def Let_def index_of_member index_of_absent splice_one_index_of
      js_less_def split: option.splits)

section \<open>Theorems\<close>

text \<open>
  C1. A change of a source item is handled while events are raised and notifications
  are needed; one of the changed properties is important, so the re-analysis runs; the
  item has a position in the projection before (\<open>b\<close>) and after (\<open>a\<close>); the
  items are pairwise different objects; \<open>_extractPacksByList\<close> puts the item in a
  pack exactly when the diff has it; and the calls made by the re-analysis and by closing
  the session carry no change packet (they report moves, additions and removals). Then
  the handler returns normally, and among all the calls it makes, the change packets
  omit the item if it moved up (\<open>a < b\<close>), include it if it moved down
  (\<open>b < a\<close>), and include it if it did not move (\<open>a = b\<close>), whether or not its
  \<open>selected\<close> flag changed. The array that \<open>_getItems()\<close> returned before the
  re-analysis is taken to be left as it was by the re-analysis.
\<close>

theorem item_change_packets:
  assumes ev: "eventRaising st"
    and imp: "list_ex (\<lambda>key. key \<in> set (importantItemProperties st)) properties"
    and ib: "getItemIndex e st index = Inr ib"
    and it: "nth_opt (items st) ib = Some it"
    and b: "getInternalBySource e st ib = Inr (Some b)"
    and re: "reAnalize e st index (Some 1) = (st1, calls1)"
    and fin: "finishUpdateSession e st1 (startUpdateSession e st) False = (st2, calls2)"
    and ia: "getItemIndex e st2 index = Inr ia"
    and a: "getInternalBySource e st2 ia = Inr (Some a)"
    and quiet: "change_items (calls1 @ calls2) = {}"
    and nn: "needNotify st2"
    and packs: "\<forall>d. (Some it \<in> (\<Union>(p, i)\<in>set (extractPacksByList e st2 d). set p)) =
                    (Some it \<in> set d)"
    and dist: "distinct (items st)"
  shows "\<exists>calls.
     notifySourceCollectionItemChange e st index properties = (None, st2, calls) \<and>
     (a < b \<longrightarrow> Some it \<notin> change_items calls) \<and>
     (b < a \<longrightarrow> Some it \<in> change_items calls) \<and>
     (a = b \<longrightarrow> Some it \<in> change_items calls)"
proof -
  define session where "session = startUpdateSession e st"
  define d where "d = filter (\<lambda>x. selected st2 x \<noteq> selected st x) (items st)"
  define check where
    "check = beforeCheck (Some it) (Some b \<noteq> Some a) (Some b) (Some a)"
  define calls3 where "calls3 =
     (if check (map Some d) \<noteq> []
      then notifyBeforeCollectionChange st2 @
           concat (map (\<lambda>(pack, index).
                          notifyCollectionChange st2 ACTION_CHANGE pack index pack index session)
                     (extractPacksByList e st2 (check (map Some d)))) @
           notifyAfterCollectionChange st2
      else [])"
  have chk: "checkItemsDiff e st2 session (items st) (Some (getItemsState st (items st))) check
      = (None, calls3)"
    by (simp add: checkItemsDiff_def getItemsDiff_same_items d_def calls3_def Let_def)
  have run: "notifySourceCollectionItemChange e st index properties =
      (None, st2, calls1 @ calls2 @ calls3)"
    using ev imp ib it b re fin [unfolded session_def [symmetric]] ia a chk
    by (simp add: notifySourceCollectionItemChange_def Let_def session_def [symmetric]
        check_def)
  have items3: "Some it \<in> change_items calls3 \<longleftrightarrow> Some it \<in> set (check (map Some d))"
  proof (cases "check (map Some d) = []")
    case True
    then show ?thesis by (simp add: calls3_def)
  next
    case False
    have "(\<Union>p\<in>set (extractPacksByList e st2 (check (map Some d))).
          change_items (case p of (pack, index) \<Rightarrow>
            notifyCollectionChange st2 ACTION_CHANGE pack index pack index session)) =
        (\<Union>(p, i)\<in>set (extractPacksByList e st2 (check (map Some d))). set p)"
      using nn by (auto simp: change_items_notify)
    with False packs show ?thesis
      by (simp add: calls3_def change_items_concat)
  qed
  have "distinct (map Some d)"
    using dist by (simp add: d_def distinct_map)
  then have member: "Some it \<in> set (check (map Some d)) \<longleftrightarrow>
      (if Some b \<noteq> Some a
       then (if js_less (Some a) (Some b) then False
             else if js_less (Some b) (Some a) then True
             else Some it \<in> set (map Some d))
       else True)"
    unfolding check_def by (rule beforeCheck_member)
  have all: "Some it \<in> change_items (calls1 @ calls2 @ calls3) \<longleftrightarrow>
      Some it \<in> set (check (map Some d))"
    using quiet items3 by simp
  have "a < b \<longrightarrow> Some it \<notin> change_items (calls1 @ calls2 @ calls3)"
    unfolding all member by (simp add: js_less_def)
  moreover have "b < a \<longrightarrow> Some it \<in> change_items (calls1 @ calls2 @ calls3)"
    unfolding all member by (simp add: js_less_def)
  moreover have "a = b \<longrightarrow> Some it \<in> change_items (calls1 @ calls2 @ calls3)"
    unfolding all member by simp
  ultimately show ?thesis using run by blast
qed

text \<open>
  The example: the source item at index 2 changes its title. The re-analysis moves it from
  position 2 up to position 0 and selects it and its neighbour; the one change packet
  carries the neighbour only. When it is the source item at index 0 that changes, the
  item moves down from position 0 to position 2 with its flag unchanged, and a change
  packet carries it.
\<close>

theorem item_change_packets_witness:
  "notifySourceCollectionItemChange moving_env example 2 [''title''] =
     (None, moved_example,
      [NotifyLater OnBeforeCollectionChange,
       NotifyLater (OnCollectionChange ACTION_MOVE [Some (CollectionItem 13)] 0
                      [Some (CollectionItem 13)] 2),
       Notify OnAfterCollectionChange,
       NotifyLater OnBeforeCollectionChange,
       NotifyLater (OnCollectionChange ACTION_CHANGE [Some (CollectionItem 12)] 1
                      [Some (CollectionItem 12)] 1),
       Notify OnAfterCollectionChange]) \<and>
   selected moved_example (CollectionItem 13) \<noteq> selected example (CollectionItem 13) \<and>
   Some (CollectionItem 13) \<notin>
     change_items (snd (snd (notifySourceCollectionItemChange moving_env example 2 [''title'']))) \<and>
   Some (CollectionItem 11) \<in>
     change_items (snd (snd (notifySourceCollectionItemChange moving_env example 0 [''title''])))"
proof -
  define calls1 where "calls1 =
     [NotifyLater OnBeforeCollectionChange,
      NotifyLater (OnCollectionChange ACTION_MOVE [Some (CollectionItem 13)] 0
                     [Some (CollectionItem 13)] 2),
      Notify OnAfterCollectionChange]"
  have ev: "eventRaising example" by (simp add: example_def)
  have imp: "list_ex (\<lambda>key. key \<in> set (importantItemProperties example)) [''title'']"
    by (simp add: example_def)
  have ib: "getItemIndex moving_env example 2 = Inr 2" "getItemIndex moving_env example 0 = Inr 0"
    by (simp_all add: getItemIndex_def moving_env_def plain_env_def)
  have it: "nth_opt (items example) 2 = Some (CollectionItem 13)"
    "nth_opt (items example) 0 = Some (CollectionItem 11)"
    by (simp_all add: nth_opt_def example_def)
  have b: "getInternalBySource moving_env example 2 = Inr (Some 2)"
    "getInternalBySource moving_env example 0 = Inr (Some 0)"
    by (simp_all add: moving_env_def plain_env_def example_def index_of_def)
  have re: "reAnalize moving_env example 2 (Some 1) = (moved_example, calls1)"
    "reAnalize moving_env example 0 (Some 1) = (moved_example, calls1)"
    by (simp_all add: moving_env_def moved_example_def example_def calls1_def)
  have fin: "finishUpdateSession moving_env moved_example
      (startUpdateSession moving_env example) False = (moved_example, [])"
    by (simp add: moving_env_def plain_env_def)
  have ia: "getItemIndex moving_env moved_example 2 = Inr 2"
    "getItemIndex moving_env moved_example 0 = Inr 0"
    by (simp_all add: getItemIndex_def moving_env_def plain_env_def)
  have a: "getInternalBySource moving_env moved_example 2 = Inr (Some 0)"
    "getInternalBySource moving_env moved_example 0 = Inr (Some 2)"
    by (simp_all add: moving_env_def plain_env_def moved_example_def example_def index_of_def)
  have quiet: "change_items (calls1 @ []) = {}"
    by (simp add: change_items_def calls1_def)
  have nn: "needNotify moved_example" by (simp add: moved_example_def example_def)
  have packs: "\<forall>d. (x \<in> (\<Union>(p, i)\<in>set (extractPacksByList moving_env moved_example d). set p))
      = (x \<in> set d)" for x
    by (auto simp: moving_env_def plain_env_def)
  have dist: "distinct (items example)" by (simp add: example_def)
  have run: "notifySourceCollectionItemChange moving_env example 2 [''title''] =
     (None, moved_example,
      calls1 @
      [NotifyLater OnBeforeCollectionChange,
       NotifyLater (OnCollectionChange ACTION_CHANGE [Some (CollectionItem 12)] 1
                      [Some (CollectionItem 12)] 1),
       Notify OnAfterCollectionChange])"
    by (simp add: notifySourceCollectionItemChange_def Let_def checkItemsDiff_def
        getItemsState_def beforeCheck_def js_less_def splice_one_def getItemIndex_def
        moved_example_def example_def moving_env_def plain_env_def index_of_def
        visible_def nth_opt_def notifyCollectionChange_def notifyBeforeCollectionChange_def
        notifyAfterCollectionChange_def calls1_def isGrouped_def)
  have sel: "selected moved_example (CollectionItem 13) \<noteq> selected example (CollectionItem 13)"
    by (simp add: moved_example_def example_def)
  from item_change_packets
    [OF ev imp ib(1) it(1) b(1) re(1) fin ia(1) a(1) quiet nn packs dist]
  have up: "Some (CollectionItem 13) \<notin>
     change_items (snd (snd (notifySourceCollectionItemChange moving_env example 2 [''title''])))"
    by auto
  from item_change_packets
    [OF ev imp ib(2) it(2) b(2) re(2) fin ia(2) a(2) quiet nn packs dist]
  have down: "Some (CollectionItem 11) \<in>
     change_items (snd (snd (notifySourceCollectionItemChange moving_env example 0 [''title''])))"
    by auto
  from run sel up down show ?thesis by (simp add: calls1_def)
qed

text \<open>
  C2 (amended). When a notification is needed, a session is given, the action is not reset
  and a group function is set, \<open>_notifyCollectionChange\<close> makes one
  \<open>_notifyLater('onCollectionChange', ...)\<close> call per maximal run of items sharing a
  group (a run ends where the next group header stands), in order; the call carries the
  slices of the new and of the old items over the run, and each index is the given index
  plus the start of the run when the corresponding list is not empty, and 0 when it is
  empty.
\<close>

theorem notifyCollectionChange_group_packets:
  assumes "needNotify st" and "session \<noteq> None" and "action \<noteq> ACTION_RESET"
    and "isGrouped st"
  shows "notifyCollectionChange st action newItems newItemsIndex oldItems oldItemsIndex session =
     map (\<lambda>(s, f). NotifyLater (OnCollectionChange action
            (slice newItems s f) (if newItems = [] then 0 else newItemsIndex + int s)
            (slice oldItems s f) (if oldItems = [] then 0 else oldItemsIndex + int s)))
       (group_runs (if action = ACTION_REMOVE then oldItems else newItems) 0)"
  using assms by (rule notifyCollectionChange_split)

theorem notifyCollectionChange_group_packets_witness:
  "needNotify grouped_example \<and> Some [] \<noteq> (None :: session option) \<and>
   ACTION_ADD \<noteq> ACTION_RESET \<and> isGrouped grouped_example \<and>
   notifyCollectionChange grouped_example ACTION_ADD
     [Some (GroupItem 10), Some (CollectionItem 11), Some (GroupItem 20), Some (CollectionItem 21)] 5
     [] 0 (Some []) =
   [NotifyLater (OnCollectionChange ACTION_ADD
      [Some (GroupItem 10), Some (CollectionItem 11)] 5 [] 0),
    NotifyLater (OnCollectionChange ACTION_ADD
      [Some (GroupItem 20), Some (CollectionItem 21)] 7 [] 0)]"
proof -
  have h1: "needNotify grouped_example" by (simp add: grouped_example_def example_def)
  have h2: "Some [] \<noteq> (None :: session option)" by simp
  have h3: "ACTION_ADD \<noteq> ACTION_RESET" by simp
  have h4: "isGrouped grouped_example" by (simp add: isGrouped_def grouped_example_def example_def)
  have runs: "group_runs
      [Some (GroupItem 10), Some (CollectionItem 11), Some (GroupItem 20), Some (CollectionItem 21)] 0
      = [(0, 2), (2, 4)]"
    by (simp add: group_runs.simps)
  show ?thesis
    using notifyCollectionChange_group_packets [OF h1 h2 h3 h4, of
        "[Some (GroupItem 10), Some (CollectionItem 11), Some (GroupItem 20), Some (CollectionItem 21)]"
        5 "[]" 0]
      h1 h4
    by (simp add: runs slice_def)
qed

text \<open>
  The claim as worded fails for an add of two groups: the old items are empty, and the
  second packet carries the old index 0, not 0 plus the start of its run.
\<close>

theorem notifyCollectionChange_offset_counterexample:
  "notifyCollectionChange grouped_example ACTION_ADD
     [Some (GroupItem 10), Some (CollectionItem 11), Some (GroupItem 20), Some (CollectionItem 21)] 0
     [] 0 (Some []) =
   [NotifyLater (OnCollectionChange ACTION_ADD
      [Some (GroupItem 10), Some (CollectionItem 11)] 0 [] 0),
    NotifyLater (OnCollectionChange ACTION_ADD
      [Some (GroupItem 20), Some (CollectionItem 21)] 2 [] 0)] \<and>
   claimed_group_packets ACTION_ADD
     [Some (GroupItem 10), Some (CollectionItem 11), Some (GroupItem 20), Some (CollectionItem 21)] 0
     [] 0 =
   [NotifyLater (OnCollectionChange ACTION_ADD
      [Some (GroupItem 10), Some (CollectionItem 11)] 0 [] 0),
    NotifyLater (OnCollectionChange ACTION_ADD
      [Some (GroupItem 20), Some (CollectionItem 21)] 2 [] 2)] \<and>
   notifyCollectionChange grouped_example ACTION_ADD
     [Some (GroupItem 10), Some (CollectionItem 11), Some (GroupItem 20), Some (CollectionItem 21)] 0
     [] 0 (Some []) \<noteq>
   claimed_group_packets ACTION_ADD
     [Some (GroupItem 10), Some (CollectionItem 11), Some (GroupItem 20), Some (CollectionItem 21)] 0
     [] 0"
  by (simp add: notifyCollectionChange_def claimed_group_packets_def grouped_example_def example_def
      isGrouped_def notify_pack_def slice_def group_runs.simps Let_def)

text \<open>
  C3. In every state and with any collaborators, \<open>setFilter\<close> called with the
  functions of the current filter list as arguments, in order, returns the state it was
  called in and makes no notification call; so does \<open>setSort\<close> called with the
  functions of the current sort list. A call with a list that differs from the current
  one does change the configuration (see the example).
\<close>

theorem setFilter_setSort_same_list_noop:
  "(args = map Func (the_filter st) \<longrightarrow> setFilter e st args = (st, [])) \<and>
   (args = map Func (the_sort st) \<longrightarrow> setSort e st args = (st, []))"
  by (auto simp: setFilter_def setSort_def Let_def handlers_unchanged rest_args_of_functions)

theorem setFilter_setSort_same_list_noop_witness:
  "the_filter example = [Handler 100 None] \<and>
   setFilter plain_env example [Func (Handler 100 None)] = (example, []) \<and>
   the_sort example = [Handler 200 (Some [''title''])] \<and>
   setSort plain_env example [Func (Handler 200 (Some [''title'']))] = (example, []) \<and>
   the_filter (fst (setFilter plain_env example [Func (Handler 101 None)])) = [Handler 101 None] \<and>
   the_sort (fst (setSort plain_env example [Func (Handler 201 None)])) = [Handler 201 None]"
proof -
  have f: "the_filter example = [Handler 100 None]"
    by (simp add: the_filter_def example_def)
  have s: "the_sort example = [Handler 200 (Some [''title''])]"
    by (simp add: the_sort_def example_def)
  have f': "the_filter (fst (setFilter plain_env example [Func (Handler 101 None)]))
      = [Handler 101 None]"
    by (simp add: setFilter_def Let_def the_filter_def example_def plain_env_def)
  have s': "the_sort (fst (setSort plain_env example [Func (Handler 201 None)]))
      = [Handler 201 None]"
    by (simp add: setSort_def Let_def the_sort_def the_filter_def isFiltered_def example_def
        plain_env_def switchImportantPropertiesByUserSort_def setImportantProperty_def
        unsetImportantProperty_def)
  from setFilter_setSort_same_list_noop [of "[Func (Handler 100 None)]" example plain_env] f
  have 1: "setFilter plain_env example [Func (Handler 100 None)] = (example, [])" by simp
  from setFilter_setSort_same_list_noop
    [of "[Func (Handler 200 (Some [''title'']))]" example plain_env] s
  have 2: "setSort plain_env example [Func (Handler 200 (Some [''title'']))] = (example, [])"
    by simp
  from f s f' s' 1 2 show ?thesis by simp
qed

text \<open>
  C4 (amended). When collection-change notifications are needed and the enumerator does
  not throw: \<open>_setSelectedItems\<close> on a list of items sets the flag on all of them and,
  when the flag of at least one of them differed, makes one \<open>onCollectionChange\<close>
  call with the action replace whose new and old items are exactly the items whose flag
  differed, between the before and after notifications; with no such item it makes no
  call. \<open>setSelectedItemsAll\<close> is this on all the items, \<open>setSelectedItems\<close> on
  the items found for the given source items. \<open>invertSelectedItemsAll\<close> makes one
  \<open>onCollectionChange\<close> call with the action reset and all the items, at index 0.
\<close>

theorem selection_events:
  assumes "queries_return e" and "needNotify st"
  shows "(\<exists>changed index.
       set changed = {it \<in> set its. selected st it \<noteq> flag} \<and>
       setSelectedItems_inner e st (map Some its) flag =
         (None, st\<lparr>selected := (\<lambda>it. if it \<in> set its then flag else selected st it)\<rparr>,
          if changed = [] then []
          else notifyBeforeCollectionChange st @
               [NotifyLater (OnCollectionChange ACTION_REPLACE
                  (map Some changed) index (map Some changed) index)] @
               notifyAfterCollectionChange st)) \<and>
     setSelectedItemsAll e st flag = setSelectedItems_inner e st (map Some (items st)) flag \<and>
     (collect_source_items e st xs = Inr (map Some its) \<longrightarrow>
        setSelectedItems e st xs flag = setSelectedItems_inner e st (map Some its) flag) \<and>
     snd (invertSelectedItemsAll st) =
       notifyBeforeCollectionChange st @
       [NotifyLater (OnCollectionChange ACTION_RESET
          (map Some (items st)) 0 (map Some (items st)) 0)] @
       notifyAfterCollectionChange st"
proof -
  have "snd (invertSelectedItemsAll st) =
      notifyBeforeCollectionChange st @
      [NotifyLater (OnCollectionChange ACTION_RESET
         (map Some (items st)) 0 (map Some (items st)) 0)] @
      notifyAfterCollectionChange st"
    using assms(2)
    by (simp add: invertSelectedItemsAll_def Let_def notifyCollectionChange_def
        notifyBeforeCollectionChange_def notifyAfterCollectionChange_def)
  moreover have "collect_source_items e st xs = Inr (map Some its) \<longrightarrow>
      setSelectedItems e st xs flag = setSelectedItems_inner e st (map Some its) flag"
    by (simp add: setSelectedItems_def)
  ultimately show ?thesis
    using setSelectedItems_inner_items [OF assms, of its flag]
    by (simp add: setSelectedItemsAll_def)
qed

theorem selection_events_witness:
  "queries_return plain_env \<and> needNotify example \<and>
   setSelectedItemsAll plain_env example True =
     (None, example\<lparr>selected := (\<lambda>it. if it \<in> set (items example) then True else False)\<rparr>,
      [NotifyLater OnBeforeCollectionChange,
       NotifyLater (OnCollectionChange ACTION_REPLACE
         [Some (CollectionItem 13), Some (CollectionItem 12), Some (CollectionItem 11)] 2
         [Some (CollectionItem 13), Some (CollectionItem 12), Some (CollectionItem 11)] 2),
       Notify OnAfterCollectionChange]) \<and>
   collect_source_items plain_env example [12] = Inr (map Some [CollectionItem 12]) \<and>
   setSelectedItems plain_env example [12] True =
     setSelectedItems_inner plain_env example (map Some [CollectionItem 12]) True \<and>
   snd (snd (setSelectedItems plain_env example [12] True)) =
     [NotifyLater OnBeforeCollectionChange,
      NotifyLater (OnCollectionChange ACTION_REPLACE
        [Some (CollectionItem 12)] 1 [Some (CollectionItem 12)] 1),
      Notify OnAfterCollectionChange] \<and>
   snd (invertSelectedItemsAll example) =
     [NotifyLater OnBeforeCollectionChange,
      NotifyLater (OnCollectionChange ACTION_RESET
        [Some (CollectionItem 11), Some (CollectionItem 12), Some (CollectionItem 13)] 0
        [Some (CollectionItem 11), Some (CollectionItem 12), Some (CollectionItem 13)] 0),
      Notify OnAfterCollectionChange]"
proof -
  have q: "queries_return plain_env" by (rule queries_return_plain_env)
  have n: "needNotify example" by (simp add: example_def)
  have c: "collect_source_items plain_env example [12] = Inr (map Some [CollectionItem 12])"
    by (simp add: getItemBySourceItem_def getIndexBySourceItem_def getIndexBySourceIndex_def
        getItemIndex_def item_at_def plain_env_def example_def visible_def index_of_def
        nth_opt_def)
  have a: "setSelectedItemsAll plain_env example True =
     (None, example\<lparr>selected := (\<lambda>it. if it \<in> set (items example) then True else False)\<rparr>,
      [NotifyLater OnBeforeCollectionChange,
       NotifyLater (OnCollectionChange ACTION_REPLACE
         [Some (CollectionItem 13), Some (CollectionItem 12), Some (CollectionItem 11)] 2
         [Some (CollectionItem 13), Some (CollectionItem 12), Some (CollectionItem 11)] 2),
       Notify OnAfterCollectionChange])"
    by (simp add: setSelectedItemsAll_def setSelectedItems_inner_def Let_def
        notifyCollectionChange_def notifyBeforeCollectionChange_def
        notifyAfterCollectionChange_def getIndex_def getIndexByInstanceId_def
        plain_env_def example_def visible_def index_of_def nth_opt_def fun_eq_iff)
  have s: "snd (snd (setSelectedItems plain_env example [12] True)) =
     [NotifyLater OnBeforeCollectionChange,
      NotifyLater (OnCollectionChange ACTION_REPLACE
        [Some (CollectionItem 12)] 1 [Some (CollectionItem 12)] 1),
      Notify OnAfterCollectionChange]"
    by (simp add: setSelectedItems_def getItemBySourceItem_def getIndexBySourceItem_def
        getIndexBySourceIndex_def getItemIndex_def item_at_def setSelectedItems_inner_def
        Let_def notifyCollectionChange_def notifyBeforeCollectionChange_def
        notifyAfterCollectionChange_def getIndex_def getIndexByInstanceId_def
        plain_env_def example_def visible_def index_of_def nth_opt_def)
  from selection_events [OF q n, of "[CollectionItem 12]" True "[12]"] c
  have e: "setSelectedItems plain_env example [12] True =
      setSelectedItems_inner plain_env example (map Some [CollectionItem 12]) True"
    and i: "snd (invertSelectedItemsAll example) =
      notifyBeforeCollectionChange example @
      [NotifyLater (OnCollectionChange ACTION_RESET
         (map Some (items example)) 0 (map Some (items example)) 0)] @
      notifyAfterCollectionChange example"
    by simp_all
  have i': "snd (invertSelectedItemsAll example) =
     [NotifyLater OnBeforeCollectionChange,
      NotifyLater (OnCollectionChange ACTION_RESET
        [Some (CollectionItem 11), Some (CollectionItem 12), Some (CollectionItem 13)] 0
        [Some (CollectionItem 11), Some (CollectionItem 12), Some (CollectionItem 13)] 0),
      Notify OnAfterCollectionChange]"
    unfolding i
    by (simp add: notifyBeforeCollectionChange_def notifyAfterCollectionChange_def example_def)
  from q n c a s e i' show ?thesis by simp
qed

text \<open>
  The claim as worded fails for \<open>invertSelectedItemsAll\<close>: in the example the flag of
  every item changes, and the one collection-change event has the action reset, not
  replace.
\<close>

theorem invertSelectedItemsAll_reset_counterexample:
  "selected example (CollectionItem 11) = False \<and>
   selected (fst (invertSelectedItemsAll example)) (CollectionItem 11) = True \<and>
   snd (invertSelectedItemsAll example) =
     [NotifyLater OnBeforeCollectionChange,
      NotifyLater (OnCollectionChange ACTION_RESET
        [Some (CollectionItem 11), Some (CollectionItem 12), Some (CollectionItem 13)] 0
        [Some (CollectionItem 11), Some (CollectionItem 12), Some (CollectionItem 13)] 0),
      Notify OnAfterCollectionChange] \<and>
   (\<forall>new i old j. NotifyLater (OnCollectionChange ACTION_REPLACE new i old j)
      \<notin> set (snd (invertSelectedItemsAll example)))"
  by (simp add: invertSelectedItemsAll_def Let_def notifyCollectionChange_def
      notifyBeforeCollectionChange_def notifyAfterCollectionChange_def example_def)

text \<open>
  C5. For an item with no memoised uid whose base id can be extracted, in a state where
  the memoised uids are pairwise different and all recorded in the uid set (as in every
  state with an empty memo table, by \<open>uid_inv_initial\<close>): \<open>getItemUid\<close> returns
  \<open>suffixed baseId k\<close> for the smallest \<open>k\<close> whose candidate is not in the set
  (\<open>k = 0\<close> is the base id itself, \<open>k > 0\<close> the base id with the suffix
  \<open>-k\<close>); the result is added to the set and memoised, so that the next call on the
  same item returns it and leaves the state as it is; no other item has this uid, and
  the state after the call satisfies the invariant again.
\<close>

theorem getItemUid_first_free_memoised:
  assumes inv: "uid_inv st"
    and fresh: "itemToUid st it = None"
    and base: "exctractItemId st it = Inr baseId"
  shows "\<exists>k uid st'.
     getItemUid st it = (Inr uid, st') \<and>
     uid = suffixed baseId k \<and>
     uid \<notin> set (itemsUid st) \<and>
     (\<forall>j<k. suffixed baseId j \<in> set (itemsUid st)) \<and>
     st' = st\<lparr>itemsUid := itemsUid st @ [uid], itemToUid := (itemToUid st)(it \<mapsto> uid)\<rparr> \<and>
     getItemUid st' it = (Inr uid, st') \<and>
     uid_inv st' \<and>
     (\<forall>other. other \<noteq> it \<longrightarrow> itemToUid st' other \<noteq> Some uid)"
proof -
  have "suffixed baseId 0 = baseId" by (simp add: suffixed_def)
  from searchItemUid_loop_first_free [OF this [symmetric], of "itemsUid st"]
  obtain k where k:
    "searchItemUid_loop baseId (itemsUid st) 0 baseId = suffixed baseId k"
    "suffixed baseId k \<notin> set (itemsUid st)"
    "\<forall>j<k. suffixed baseId j \<in> set (itemsUid st)"
    by auto
  define uid where "uid = suffixed baseId k"
  define st' where
    "st' = st\<lparr>itemsUid := itemsUid st @ [uid], itemToUid := (itemToUid st)(it \<mapsto> uid)\<rparr>"
  have run: "getItemUid st it = (Inr uid, st')"
    using fresh base k(1,2)
    by (simp add: getItemUid_def searchItemUid_def uid_def st'_def Let_def)
  have memo: "getItemUid st' it = (Inr uid, st')"
    by (simp add: getItemUid_def st'_def)
  have others: "\<forall>other. other \<noteq> it \<longrightarrow> itemToUid st' other \<noteq> Some uid"
  proof (intro allI impI notI)
    fix other assume "other \<noteq> it" and "itemToUid st' other = Some uid"
    then have "itemToUid st other = Some uid" by (simp add: st'_def)
    then have "uid \<in> ran (itemToUid st)" by (auto simp: ran_def)
    with inv have "uid \<in> set (itemsUid st)" by (auto simp: uid_inv_def)
    with k(2) show False by (simp add: uid_def)
  qed
  have inv': "uid_inv st'"
    unfolding uid_inv_def
  proof (intro conjI allI impI)
    show "ran (itemToUid st') \<subseteq> set (itemsUid st')"
      using inv fresh by (auto simp: uid_inv_def st'_def ran_def)
  next
    fix i j u
    assume u: "itemToUid st' i = Some u \<and> itemToUid st' j = Some u"
    show "i = j"
    proof (cases "i = it")
      case True
      with u have "u = uid" by (simp add: st'_def)
      with u others True show ?thesis by metis
    next
      case False
      note i = this
      show ?thesis
      proof (cases "j = it")
        case True
        with u have "u = uid" by (simp add: st'_def)
        with u others i show ?thesis by metis
      next
        case False
        with i u have "itemToUid st i = Some u \<and> itemToUid st j = Some u"
          by (simp add: st'_def)
        with inv show ?thesis unfolding uid_inv_def by blast
      qed
    qed
  qed
  from run memo others inv' k(2,3) show ?thesis
    unfolding uid_def [symmetric] st'_def [symmetric] by (intro exI [of _ k] exI [of _ uid] exI [of _ st']) (simp add: uid_def st'_def)
qed

theorem getItemUid_first_free_memoised_witness:
  "uid_inv example \<and> itemToUid example (CollectionItem 1) = None \<and>
   exctractItemId example (CollectionItem 1) = Inr ''7'' \<and>
   fst (getItemUid example (CollectionItem 1)) = Inr ''7-2'' \<and>
   (\<exists>k uid st'.
     getItemUid example (CollectionItem 1) = (Inr uid, st') \<and>
     uid = suffixed ''7'' k \<and>
     uid \<notin> set (itemsUid example) \<and>
     (\<forall>j<k. suffixed ''7'' j \<in> set (itemsUid example)) \<and>
     st' = example\<lparr>itemsUid := itemsUid example @ [uid],
                        itemToUid := (itemToUid example)(CollectionItem 1 \<mapsto> uid)\<rparr> \<and>
     getItemUid st' (CollectionItem 1) = (Inr uid, st') \<and>
     uid_inv st' \<and>
     (\<forall>other. other \<noteq> CollectionItem 1 \<longrightarrow> itemToUid st' other \<noteq> Some uid))"
proof -
  have h1: "uid_inv example" by (simp add: uid_inv_def example_def)
  have h2: "itemToUid example (CollectionItem 1) = None" by (simp add: example_def)
  have h3: "exctractItemId example (CollectionItem 1) = Inr ''7''"
    by (simp add: exctractItemId_def example_def)
  have h4: "fst (getItemUid example (CollectionItem 1)) = Inr ''7-2''"
    by (simp add: getItemUid_def exctractItemId_def searchItemUid_def example_def Let_def
        searchItemUid_loop.simps string_of_nat.simps digits_def)
  from getItemUid_first_free_memoised [OF h1 h2 h3] h1 h2 h3 h4 show ?thesis by blast
qed

text \<open>
  C6. Each of assign, append, prepend, clear, add, remove, removeAt, replace and move
  throws the read-only error for every argument list and in every state of the
  Collection, and the state after the call is the state before it.
\<close>

theorem mutators_throw_read_only:
  "assign st args = (Inl (Error MESSAGE_READ_ONLY), st) \<and>
   append_items st args = (Inl (Error MESSAGE_READ_ONLY), st) \<and>
   prepend st args = (Inl (Error MESSAGE_READ_ONLY), st) \<and>
   clear st args = (Inl (Error MESSAGE_READ_ONLY), st) \<and>
   add st args = (Inl (Error MESSAGE_READ_ONLY), st) \<and>
   remove_item st args = (Inl (Error MESSAGE_READ_ONLY), st) \<and>
   removeAt st args = (Inl (Error MESSAGE_READ_ONLY), st) \<and>
   replace_item st args = (Inl (Error MESSAGE_READ_ONLY), st) \<and>
   move st args = (Inl (Error MESSAGE_READ_ONLY), st)"
  by (simp add: assign_def append_items_def prepend_def clear_def add_def remove_item_def
      removeAt_def replace_item_def move_def)

text \<open>
  C7. When none of the enumerator, the strategy and the source throws, none of the seven
  queries throws, for any argument and in any state. Where the mapping asked for does
  not exist the answer is -1 or \<open>undefined\<close>: \<open>getIndex\<close> of a value that is not an
  item, or of an item the enumerator does not find; \<open>getSourceIndexByItem\<close> of
  either; \<open>getIndexBySourceIndex\<close> of a source index with no position in the
  projection; \<open>getIndexBySourceItem\<close> of a value that is not in the source;
  \<open>getItemBySourceIndex\<close> and \<open>getItemBySourceItem\<close> of either.
  \<open>getSourceIndexByIndex\<close> of a position the enumerator does not know asks the
  strategy for the source index of -1, and answers -1 when the strategy answers -1 (as
  \<open>getCollectionIndex\<close> of AbstractStrategy, the identity, does).
\<close>

theorem queries_never_throw:
  assumes "queries_return e"
  shows "\<not> isl (getIndex e st v) \<and>
     \<not> isl (getSourceIndexByIndex e st index) \<and>
     \<not> isl (getSourceIndexByItem e st v) \<and>
     \<not> isl (getIndexBySourceIndex e st index) \<and>
     \<not> isl (getIndexBySourceItem e st x) \<and>
     \<not> isl (getItemBySourceIndex e st index) \<and>
     \<not> isl (getItemBySourceItem e st x) \<and>
     getIndex e st OtherValue = Inr (- 1) \<and>
     (getIndexByValue e st (instanceId it) = Inr (- 1) \<longrightarrow>
        getIndex e st (ItemRef it) = Inr (- 1)) \<and>
     (getSourceByInternal e st index = Inr None \<longrightarrow>
        getSourceIndexByIndex e st index = getCollectionIndex e st (- 1)) \<and>
     (getSourceByInternal e st index = Inr None \<and> getCollectionIndex e st (- 1) = Inr (- 1) \<longrightarrow>
        getSourceIndexByIndex e st index = Inr (- 1)) \<and>
     (getIndex e st v = Inr (- 1) \<longrightarrow> getSourceIndexByItem e st v = Inr (- 1)) \<and>
     (getDisplayIndex e st index = Inr i \<and> getInternalBySource e st i = Inr None \<longrightarrow>
        getIndexBySourceIndex e st index = Inr (- 1)) \<and>
     (sourceIsList st \<and> source_getIndex e st x = Inr (- 1) \<longrightarrow>
        getIndexBySourceItem e st x = Inr (- 1)) \<and>
     (\<not> sourceIsList st \<and> x \<notin> set (source st) \<longrightarrow>
        getIndexBySourceItem e st x = Inr (- 1)) \<and>
     (getIndexBySourceIndex e st index = Inr (- 1) \<longrightarrow>
        getItemBySourceIndex e st index = Inr None) \<and>
     (getIndexBySourceItem e st x = Inr (- 1) \<longrightarrow> getItemBySourceItem e st x = Inr None)"
proof -
  have r:
    "\<And>st n err. getIndexByValue e st n \<noteq> Inl err"
    "\<And>st i err. getSourceByInternal e st i \<noteq> Inl err"
    "\<And>st i err. getInternalBySource e st i \<noteq> Inl err"
    "\<And>st i err. enumerator_at e st i \<noteq> Inl err"
    "\<And>st i err. getDisplayIndex e st i \<noteq> Inl err"
    "\<And>st i err. getCollectionIndex e st i \<noteq> Inl err"
    "\<And>st x err. source_getIndex e st x \<noteq> Inl err"
    using assms unfolding queries_return_def by (metis sum.disc(1))+
  have 1: "\<not> isl (getIndex e st v)" for v
    by (simp add: getIndex_def getIndexByInstanceId_def r isl_def split: jsvalue.split)
  have 2: "\<not> isl (getSourceIndexByIndex e st index)" for index
    by (simp add: getSourceIndexByIndex_def getSourceIndex_def r isl_def split: sum.split)
  have 3: "\<not> isl (getSourceIndexByItem e st v)"
    using 1 [of v] 2
    by (simp add: getSourceIndexByItem_def isl_def split: sum.split)
  have 4: "\<not> isl (getIndexBySourceIndex e st index)" for index
    by (simp add: getIndexBySourceIndex_def getItemIndex_def r isl_def split: sum.split)
  have 5: "\<not> isl (getIndexBySourceItem e st x)"
    using 4 by (simp add: getIndexBySourceItem_def r isl_def split: sum.split)
  have 6: "\<not> isl (getItemBySourceIndex e st index)"
    using 4 [of index]
    by (simp add: getItemBySourceIndex_def item_at_def r isl_def split: sum.split)
  have 7: "\<not> isl (getItemBySourceItem e st x)"
    using 5 by (simp add: getItemBySourceItem_def item_at_def r isl_def split: sum.split)
  have unknown:
    "getIndex e st OtherValue = Inr (- 1)"
    "getIndexByValue e st (instanceId it) = Inr (- 1) \<longrightarrow>
       getIndex e st (ItemRef it) = Inr (- 1)"
    "getSourceByInternal e st index = Inr None \<longrightarrow>
       getSourceIndexByIndex e st index = getCollectionIndex e st (- 1)"
    "getIndex e st v = Inr (- 1) \<longrightarrow> getSourceIndexByItem e st v = Inr (- 1)"
    "getDisplayIndex e st index = Inr i \<and> getInternalBySource e st i = Inr None \<longrightarrow>
       getIndexBySourceIndex e st index = Inr (- 1)"
    "sourceIsList st \<and> source_getIndex e st x = Inr (- 1) \<longrightarrow>
       getIndexBySourceItem e st x = Inr (- 1)"
    "\<not> sourceIsList st \<and> x \<notin> set (source st) \<longrightarrow> getIndexBySourceItem e st x = Inr (- 1)"
    "getIndexBySourceIndex e st index = Inr (- 1) \<longrightarrow>
       getItemBySourceIndex e st index = Inr None"
    "getIndexBySourceItem e st x = Inr (- 1) \<longrightarrow> getItemBySourceItem e st x = Inr None"
    by (simp_all add: getIndex_def getIndexByInstanceId_def getSourceIndexByIndex_def
        getSourceIndex_def getSourceIndexByItem_def getIndexBySourceIndex_def getItemIndex_def
        getIndexBySourceItem_def getItemBySourceIndex_def getItemBySourceItem_def
        each_index_absent)
  from 1 [of v] 2 [of index] 3 4 [of index] 5 6 7 unknown show ?thesis by simp
qed

theorem queries_never_throw_witness:
  "queries_return plain_env \<and>
   getIndex plain_env example (ItemRef (CollectionItem 12)) = Inr 1 \<and>
   getIndex plain_env example (ItemRef (CollectionItem 99)) = Inr (- 1) \<and>
   getIndex plain_env example OtherValue = Inr (- 1) \<and>
   getSourceIndexByIndex plain_env example 7 = Inr (- 1) \<and>
   getSourceIndexByItem plain_env example (ItemRef (CollectionItem 99)) = Inr (- 1) \<and>
   getIndexBySourceIndex plain_env example 7 = Inr (- 1) \<and>
   getIndexBySourceItem plain_env example 99 = Inr (- 1) \<and>
   getItemBySourceIndex plain_env example 7 = Inr None \<and>
   getItemBySourceItem plain_env example 99 = Inr None \<and>
   getItemBySourceItem plain_env example 12 = Inr (Some (CollectionItem 12))"
proof -
  have q: "queries_return plain_env" by (rule queries_return_plain_env)
  have given:
    "getIndexByValue plain_env example (instanceId (CollectionItem 99)) = Inr (- 1)"
    "getSourceByInternal plain_env example 7 = Inr None"
    "getCollectionIndex plain_env example (- 1) = Inr (- 1)"
    "getDisplayIndex plain_env example 7 = Inr 7"
    "getInternalBySource plain_env example 7 = Inr None"
    "sourceIsList example" "source_getIndex plain_env example 99 = Inr (- 1)"
    by (simp_all add: plain_env_def example_def visible_def index_of_def nth_opt_def)
  have found:
    "getIndex plain_env example (ItemRef (CollectionItem 12)) = Inr 1"
    "getItemBySourceItem plain_env example 12 = Inr (Some (CollectionItem 12))"
    by (simp_all add: getIndex_def getIndexByInstanceId_def getItemBySourceItem_def
        getIndexBySourceItem_def getIndexBySourceIndex_def getItemIndex_def item_at_def
        plain_env_def example_def visible_def index_of_def nth_opt_def)
  from queries_never_throw [OF q, of example "ItemRef (CollectionItem 99)" 7 99
      "CollectionItem 99" 7] given
  have "getIndex plain_env example OtherValue = Inr (- 1)"
    "getIndex plain_env example (ItemRef (CollectionItem 99)) = Inr (- 1)"
    "getSourceIndexByIndex plain_env example 7 = Inr (- 1)"
    "getSourceIndexByItem plain_env example (ItemRef (CollectionItem 99)) = Inr (- 1)"
    "getIndexBySourceIndex plain_env example 7 = Inr (- 1)"
    "getIndexBySourceItem plain_env example 99 = Inr (- 1)"
    "getItemBySourceIndex plain_env example 7 = Inr None"
    "getItemBySourceItem plain_env example 99 = Inr None"
    by simp_all
  with q found show ?thesis by simp
qed

text \<open>
  C8. For every start and count, \<open>_reGroup(start, count)\<close> has the effect of
  \<open>_reGroup()\<close>: nothing without a composer, otherwise the invalidation of the
  whole group strategy.
\<close>

theorem reGroup_ignores_range:
  "reGroup st start count = reGroup st None None \<and>
   reGroup st start count =
     (case composer_of st of
        None \<Rightarrow> st
      | Some c \<Rightarrow> st\<lparr>composer_of := Some (c\<lparr>group_items := None\<rparr>)\<rparr>)"
  by (simp add: reGroup_def invalidate_group_def split: option.split)

text \<open>
  C9. In a state whose two handler arrays exist, \<open>getFilter\<close> returns the address of
  a new array whose contents are those of \<open>_$filter\<close>; the address is neither that of
  \<open>_$filter\<close> nor that of \<open>_$sort\<close>, and the next call returns yet another
  one. Whatever the caller then writes into the returned array, the contents of
  \<open>_$filter\<close> and of \<open>_$sort\<close> are what they were, and every other field of the
  state (the items, the filter map and the sort map, hence the visible sequence) is
  unchanged. The same holds for \<open>getSort\<close>.
\<close>

theorem getFilter_getSort_fresh_copy:
  assumes "refs_valid st"
  shows "(let (a, st1) = getFilter st; st2 = write_array st1 a hs in
            a \<noteq> filter_ref st \<and> a \<noteq> sort_ref st \<and> arrays st1 ! a = the_filter st \<and>
            fst (getFilter st1) \<noteq> a \<and> fst (getFilter st2) \<noteq> a \<and>
            the_filter st2 = the_filter st \<and> the_sort st2 = the_sort st \<and>
            st2\<lparr>arrays := arrays st\<rparr> = st) \<and>
         (let (a, st1) = getSort st; st2 = write_array st1 a hs in
            a \<noteq> filter_ref st \<and> a \<noteq> sort_ref st \<and> arrays st1 ! a = the_sort st \<and>
            fst (getSort st1) \<noteq> a \<and> fst (getSort st2) \<noteq> a \<and>
            the_filter st2 = the_filter st \<and> the_sort st2 = the_sort st \<and>
            st2\<lparr>arrays := arrays st\<rparr> = st)"
  using assms
  by (simp add: getFilter_def getSort_def write_array_def refs_valid_def the_filter_def
      the_sort_def nth_append)

theorem getFilter_getSort_fresh_copy_witness:
  "refs_valid example \<and>
   (let (a, st1) = getFilter example; st2 = write_array st1 a [] in
      a = 2 \<and> arrays st1 ! a = [Handler 100 None] \<and> the_filter st2 = [Handler 100 None] \<and>
      arrays st2 ! a = [] \<and> st2\<lparr>arrays := arrays example\<rparr> = example) \<and>
   (let (a, st1) = getSort example; st2 = write_array st1 a [] in
      a = 2 \<and> the_sort st2 = [Handler 200 (Some [''title''])] \<and>
      st2\<lparr>arrays := arrays example\<rparr> = example)"
proof -
  have v: "refs_valid example" by (simp add: refs_valid_def example_def)
  have a: "fst (getFilter example) = 2" "fst (getSort example) = 2"
    by (simp_all add: getFilter_def getSort_def example_def)
  have c: "the_filter example = [Handler 100 None]"
      "the_sort example = [Handler 200 (Some [''title''])]"
    by (simp_all add: the_filter_def the_sort_def example_def)
  have w: "arrays (write_array (snd (getFilter example)) 2 []) ! 2 = []"
    by (simp add: write_array_def getFilter_def example_def)
  from getFilter_getSort_fresh_copy [OF v, of "[]"] a c w v show ?thesis
    by (simp add: case_prod_unfold Let_def)
qed




end
